theory Spec2Isabelle
  imports Main "HOL-Library.Word"
begin

unbundle bit_operations_syntax

chapter \<open>Shallow embedding of the kanzi block transforms\<close>

text \<open>
  The development covers the BWT block codec (Go, \<^verbatim>\<open>BWTBlockCodec.go\<close>), and the
  C++ transforms \<^verbatim>\<open>ROLZCodec\<close>, \<^verbatim>\<open>UTFCodec\<close>, \<^verbatim>\<open>X86Codec\<close> and \<^verbatim>\<open>BWT\<close>.
  Bytes are \<open>8 word\<close>, Go's \<open>uint\<close> is \<open>64 word\<close>, C++ \<open>int\<close>/\<open>int32\<close> is \<open>32 word\<close>
  read through \<open>sint\<close> where the code compares signed values.  All definitions come
  first; the lemmas and theorems follow in the second part.
\<close>

type_synonym byte = "8 word"
type_synonym uint = "64 word"
type_synonym int32 = "32 word"

section \<open>Definitions: BWTBlockCodec (Go)\<close>

text \<open>
  A Go call either returns, panics (index out of range) or returns an \<open>error\<close> value.
  The loop that computes \<open>pIndexSizeBits\<close> has no bound in the source, so it is a partial
  function: \<open>None\<close> means that the loop never exits.
\<close>

datatype go_error = Panic_index_out_of_range | Error string







text \<open>\<^verbatim>\<open>for i := uint(1); i < headerSizeBytes; i++ { shift -= 8; primaryIndex |= uint(src[i]) << shift }\<close>\<close>

function read_index :: "uint \<Rightarrow> uint \<Rightarrow> uint \<Rightarrow> uint \<Rightarrow> byte list \<Rightarrow> uint option" where
  "read_index i headerSizeBytes shift primaryIndex src =
     (if i < headerSizeBytes
      then (let shift' = shift - 8 in
            if unat i < length src
            then read_index (i + 1) headerSizeBytes shift'
                   (primaryIndex OR push_bit (unat shift') (ucast (src ! unat i))) src
            else None)
      else Some primaryIndex)"
  by pat_completeness auto
termination
  apply (relation "measure (\<lambda>(i, h, s, p, d). unat h - unat i)")
   apply simp
  apply simp
  apply unat_arith
  done

declare read_index.simps [simp del]

text \<open>
  \<open>Inverse\<close>.  A slice is \<open>None\<close> when it is \<^verbatim>\<open>nil\<close>.  The function has six ways out;
  \<open>inverse_exit\<close> names the one taken, so that a statement can tell the return of the
  \<^verbatim>\<open>blockSize == 0\<close> branch from a return of the BWT.  \<open>bwtInverse p s d\<close> stands for
  \<^verbatim>\<open>SetPrimaryIndex(p)\<close> followed by \<^verbatim>\<open>Inverse(s, d)\<close> of the BWT.
\<close>

datatype 'r inverse_exit =
    Null_input | Null_output | Index_panic | Invalid_length | Empty_block | Bwt_inverse 'r

definition BWTBlockCodec_Inverse_exit ::
  "(uint \<Rightarrow> byte list \<Rightarrow> byte list \<Rightarrow> 'r) \<Rightarrow> byte list option \<Rightarrow> byte list option \<Rightarrow>
   'r inverse_exit" where
  "BWTBlockCodec_Inverse_exit bwtInverse src dst =
     (case src of None \<Rightarrow> Null_input | Some s \<Rightarrow>
      (case dst of None \<Rightarrow> Null_output | Some d \<Rightarrow>
       (let blockSize = (of_nat (length s) :: uint) in
        if s = [] then Index_panic
        else let blockMode = (ucast (s ! 0) :: uint);
                 headerSizeBytes = 1 + (drop_bit 6 blockMode AND 0x03)
             in if blockSize < headerSizeBytes then Invalid_length
                else if blockSize = 0 then Empty_block
                else let shift = push_bit 3 (headerSizeBytes - 1);
                         primaryIndex = push_bit (unat shift) (blockMode AND 0x3F);
                         srcIdx = headerSizeBytes
                     in case read_index 1 headerSizeBytes shift primaryIndex s of
                          None \<Rightarrow> Index_panic
                        | Some primaryIndex' \<Rightarrow>
                            Bwt_inverse (bwtInverse primaryIndex' (drop (unat srcIdx) s) d))))"

text \<open>The Go result \<open>(uint, uint, error)\<close> of each exit.\<close>

definition BWTBlockCodec_Inverse ::
  "(uint \<Rightarrow> byte list \<Rightarrow> byte list \<Rightarrow> go_error + uint \<times> uint) \<Rightarrow>
   byte list option \<Rightarrow> byte list option \<Rightarrow> go_error + uint \<times> uint" where
  "BWTBlockCodec_Inverse bwtInverse src dst =
     (case BWTBlockCodec_Inverse_exit bwtInverse src dst of
        Null_input \<Rightarrow> Inl (Error ''Input buffer cannot be null'')
      | Null_output \<Rightarrow> Inl (Error ''Output buffer cannot be null'')
      | Index_panic \<Rightarrow> Inl Panic_index_out_of_range
      | Invalid_length \<Rightarrow> Inl (Error ''Invalid compressed length in stream'')
      | Empty_block \<Rightarrow> Inr (0, 0)
      | Bwt_inverse r \<Rightarrow> r)"

section \<open>Definitions: what the C++ transforms share\<close>

text \<open>
  A C++ transform returns a \<open>bool\<close> or throws \<^verbatim>\<open>std::invalid_argument\<close>.  A read outside
  the array it is given is undefined behaviour; the models make every read explicit
  (\<open>rd\<close>) and return \<open>None\<close> there, so a result \<open>Some \<dots>\<close> is a run without such a read.
\<close>

datatype cpp_error =
    Invalid_input_block
  | Invalid_output_block
  | Block_too_large int int  \<comment> \<open>the maximum and the count of the message\<close>
  | Concurrency_not_supported

record SliceArray =
  array_id :: "nat option"  \<comment> \<open>the address held by \<^verbatim>\<open>_array\<close>; \<open>None\<close> is \<^verbatim>\<open>nullptr\<close>\<close>
  slice_length :: int
  slice_index :: int

definition rd :: "'a list \<Rightarrow> int \<Rightarrow> 'a option" where
  "rd xs i = (if 0 \<le> i \<and> i < int (length xs) then Some (xs ! nat i) else None)"

text \<open>\<^verbatim>\<open>memcpy(dst, &src[i], n)\<close> as the bytes it copies; \<open>None\<close> when the range leaves \<open>src\<close>
  or \<open>n\<close> is negative.\<close>

definition rd_range :: "'a list \<Rightarrow> int \<Rightarrow> int \<Rightarrow> 'a list option" where
  "rd_range xs i n =
     (if 0 \<le> i \<and> 0 \<le> n \<and> i + n \<le> int (length xs)
      then Some (take (nat n) (drop (nat i) xs)) else None)"

text \<open>
  Modelled from the spec: the helpers of \<^verbatim>\<open>Memory.hpp\<close> (not among the sources) read and
  write a 32-bit integer in little-endian or big-endian byte order.
\<close>

definition LittleEndian_writeInt32 :: "int32 \<Rightarrow> byte list" where
  "LittleEndian_writeInt32 w =
     [ucast w, ucast (drop_bit 8 w), ucast (drop_bit 16 w), ucast (drop_bit 24 w)]"

definition BigEndian_writeInt32 :: "int32 \<Rightarrow> byte list" where
  "BigEndian_writeInt32 w =
     [ucast (drop_bit 24 w), ucast (drop_bit 16 w), ucast (drop_bit 8 w), ucast w]"

definition le32 :: "byte \<Rightarrow> byte \<Rightarrow> byte \<Rightarrow> byte \<Rightarrow> int32" where
  "le32 b0 b1 b2 b3 =
     ucast b0 OR push_bit 8 (ucast b1) OR push_bit 16 (ucast b2) OR push_bit 24 (ucast b3)"

definition LittleEndian_readInt32 :: "byte list \<Rightarrow> int \<Rightarrow> int32 option" where
  "LittleEndian_readInt32 xs i =
     (case (rd xs i, rd xs (i + 1), rd xs (i + 2), rd xs (i + 3)) of
        (Some b0, Some b1, Some b2, Some b3) \<Rightarrow> Some (le32 b0 b1 b2 b3)
      | _ \<Rightarrow> None)"


section \<open>Definitions: ROLZCodec::forward\<close>

text \<open>
  \<^verbatim>\<open>MIN_BLOCK_SIZE\<close>, \<^verbatim>\<open>MAX_BLOCK_SIZE\<close> (\<^verbatim>\<open>ROLZCodec.hpp\<close>) and \<^verbatim>\<open>SliceArray::isValid\<close> are
  not among the sources: they are parameters, as is the delegate (\<^verbatim>\<open>ROLZCodec1\<close> or
  \<^verbatim>\<open>ROLZCodec2\<close>) the function ends on.  The checks are in the order of the source.
\<close>

definition ROLZCodec_forward ::
  "int \<Rightarrow> int \<Rightarrow> (SliceArray \<Rightarrow> bool) \<Rightarrow> (SliceArray \<Rightarrow> SliceArray \<Rightarrow> int \<Rightarrow> cpp_error + bool) \<Rightarrow>
   SliceArray \<Rightarrow> SliceArray \<Rightarrow> int \<Rightarrow> cpp_error + bool" where
  "ROLZCodec_forward MIN_BLOCK_SIZE MAX_BLOCK_SIZE isValid delegate_forward input output count =
     (if count = 0 then Inr True
      else if count < MIN_BLOCK_SIZE then Inr False
      else if \<not> isValid input then Inl Invalid_input_block
      else if \<not> isValid output then Inl Invalid_output_block
      else if array_id input = array_id output then Inr False
      else if count > MAX_BLOCK_SIZE then Inl (Block_too_large MAX_BLOCK_SIZE count)
      else delegate_forward input output count)"

section \<open>Definitions: X86Codec\<close>

text \<open>
  The constants of \<^verbatim>\<open>X86Codec.hpp\<close> are not among the sources.  They are the fields of
  a record, a parameter of every function below; the theorems state what they need of
  them.
\<close>

record x86_consts =
  X86_MASK_JUMP :: byte
  X86_INSTRUCTION_JUMP :: byte
  X86_INSTRUCTION_JCC :: byte
  X86_TWO_BYTE_PREFIX :: byte
  X86_MASK_JCC :: byte
  X86_ESCAPE :: byte
  X86_ADDR_MASK :: int32
  MASK_ADDRESS :: int32
  X86 :: byte
  ARM64 :: byte
  ARM_B_ADDR_MASK :: int32
  ARM_B_OPCODE_MASK :: int32
  ARM_B_ADDR_SGN_MASK :: int32
  ARM_OPCODE_B :: int32
  ARM_OPCODE_BL :: int32
  ARM_CB_REG_BITS :: nat
  ARM_CB_ADDR_MASK :: int32
  ARM_CB_ADDR_SGN_MASK :: int32

text \<open>
  The values the spec gives (\<^verbatim>\<open>E8\<close>/\<^verbatim>\<open>E9\<close>, \<^verbatim>\<open>0F 8?\<close>, a 26-bit branch offset) and, for
  those it leaves open, the values of the kanzi headers.  Used for concrete runs only.
\<close>

definition kanzi_x86_consts :: x86_consts where
  "kanzi_x86_consts =
     \<lparr>X86_MASK_JUMP = 0xFE, X86_INSTRUCTION_JUMP = 0xE8, X86_INSTRUCTION_JCC = 0x80,
      X86_TWO_BYTE_PREFIX = 0x0F, X86_MASK_JCC = 0xF0, X86_ESCAPE = 0x9B,
      X86_ADDR_MASK = 0xFFFFFF, MASK_ADDRESS = 0xF0F0F0F0, X86 = 0x40, ARM64 = 0x20,
      ARM_B_ADDR_MASK = 0x3FFFFFF, ARM_B_OPCODE_MASK = 0xFC000000,
      ARM_B_ADDR_SGN_MASK = 0x2000000, ARM_OPCODE_B = 0x14000000, ARM_OPCODE_BL = 0x94000000,
      ARM_CB_REG_BITS = 5, ARM_CB_ADDR_MASK = 0x00FFFFE0, ARM_CB_ADDR_SGN_MASK = 0x800000\<rparr>"

subsection \<open>forwardX86\<close>

text \<open>
  \<^verbatim>\<open>byte* src = &input._array[input._index]\<close>: the functions below take the array \<open>arr\<close>
  and the index \<open>idx\<close> of the slice, and \<^verbatim>\<open>src[i]\<close> is \<open>arr\<close> at \<open>idx + i\<close>, also for a
  negative \<open>i\<close>; a read is \<open>None\<close> only outside the array.

  One pass through the body of the \<^verbatim>\<open>while\<close> loop of \<open>forwardX86\<close>, at \<open>srcIdx\<close>: the bytes
  it writes at \<^verbatim>\<open>dst[dstIdx]\<close>, the next \<open>srcIdx\<close>, and its increment of \<open>matches\<close>.  The
  address is computed on 32-bit words.
\<close>

definition forwardX86_body ::
  "x86_consts \<Rightarrow> byte list \<Rightarrow> int \<Rightarrow> int \<Rightarrow> (byte list \<times> int \<times> nat) option" where
  "forwardX86_body c arr idx srcIdx =
     (case rd arr (idx + srcIdx) of
        None \<Rightarrow> None
      | Some b \<Rightarrow>
         let \<comment> \<open>the two-byte prefix is copied; the opcode is the byte after it\<close>
             prefixed = (b = X86_TWO_BYTE_PREFIX c);
             k = (if prefixed then srcIdx + 1 else srcIdx);
             out = (if prefixed then [b] else [])
         in (case rd arr (idx + k) of
               None \<Rightarrow> None
             | Some opc \<Rightarrow>
                if (if prefixed then opc AND X86_MASK_JCC c \<noteq> X86_INSTRUCTION_JCC c
                    else opc AND X86_MASK_JUMP c \<noteq> X86_INSTRUCTION_JUMP c)
                then \<comment> \<open>not a relative jump or call\<close>
                     Some (out @ (if opc = X86_ESCAPE c then [X86_ESCAPE c] else []) @ [opc], k + 1, 0)
                else \<comment> \<open>current instruction is a jump/call\<close>
                  (case (rd arr (idx + (k + 4)), LittleEndian_readInt32 arr (idx + (k + 1))) of
                     (Some sgnb, Some offset) \<Rightarrow>
                       if (sgnb \<noteq> 0 \<and> sgnb \<noteq> 0xFF) \<or> offset = 0xFF000000
                       then Some (out @ [X86_ESCAPE c, opc], k + 1, 0)
                       else let addr = word_of_int k +
                                       (if sgnb = 0 then offset else - (- offset AND X86_ADDR_MASK c))
                            in Some (out @ [opc] @ BigEndian_writeInt32 (addr XOR MASK_ADDRESS c),
                                     k + 5, 1)
                   | _ \<Rightarrow> None)))"

text \<open>
  The loop.  \<open>dst\<close> is the output written so far from \<^verbatim>\<open>dst[9]\<close> on, so
  \<open>dstIdx = 9 + length dst\<close>.  Every pass moves \<open>srcIdx\<close> forward (lemma
  \<open>forwardX86_body_next\<close>), so the \<open>else None\<close> of the inner test is never taken; it is
  there for the termination proof only.
\<close>

function forwardX86_loop ::
  "x86_consts \<Rightarrow> byte list \<Rightarrow> int \<Rightarrow> int \<Rightarrow> int \<Rightarrow> byte list \<Rightarrow> nat \<Rightarrow>
   (int \<times> byte list \<times> nat) option" where
  "forwardX86_loop c arr idx codeEnd srcIdx dst matches =
     (if srcIdx < codeEnd then
        (case forwardX86_body c arr idx srcIdx of
           None \<Rightarrow> None
         | Some (out, srcIdx', m) \<Rightarrow>
             if srcIdx < srcIdx'
             then forwardX86_loop c arr idx codeEnd srcIdx' (dst @ out) (matches + m)
             else None)
      else Some (srcIdx, dst, matches))"
  by pat_completeness auto
termination
  by (relation "measure (\<lambda>(c, arr, idx, codeEnd, srcIdx, dst, matches). nat (codeEnd - srcIdx))")
     auto

declare forwardX86_loop.simps [simp del]

text \<open>
  \<open>forwardX86\<close> returns the \<open>bool\<close> and, when it is true, the bytes \<^verbatim>\<open>dst[0 .. dstIdx)\<close> it
  produced (nothing is promised about \<open>dst\<close> when it declines).  \<open>count\<close>, \<open>codeStart\<close> and
  \<open>codeEnd\<close> are C++ \<open>int\<close>s.  A \<^verbatim>\<open>memcpy\<close> of a negative number of bytes is \<open>None\<close>.
\<close>

definition forwardX86 ::
  "x86_consts \<Rightarrow> byte list \<Rightarrow> int \<Rightarrow> int \<Rightarrow> int \<Rightarrow> int \<Rightarrow> (bool \<times> byte list) option" where
  "forwardX86 c arr idx count codeStart codeEnd =
     (case (if codeStart > 0 then rd_range arr idx codeStart else Some []) of
        None \<Rightarrow> None
      | Some head \<Rightarrow>
         (case forwardX86_loop c arr idx codeEnd codeStart head 0 of
            None \<Rightarrow> None
          | Some (srcIdx, dst, matches) \<Rightarrow>
              if matches < 16 then Some (False, [])
              else (case rd_range arr (idx + srcIdx) (count - srcIdx) of
                      None \<Rightarrow> None
                    | Some rest \<Rightarrow>
                        Some (True,
                              [X86 c] @ LittleEndian_writeInt32 (word_of_int codeStart)
                                @ LittleEndian_writeInt32 (word_of_int (9 + int (length dst)))
                                @ dst @ rest))))"

subsection \<open>inverseX86\<close>





subsection \<open>forwardARM\<close>

text \<open>
  One pass through the body of the loop of \<open>forwardARM\<close>: either the \<^verbatim>\<open>break\<close> after four
  false positives in a row, or the bytes written, the next \<open>srcIdx\<close>, the increment of
  \<open>matches\<close> and the new \<open>fpRun\<close>.  \<open>isCB\<close> is the constant \<open>false\<close> of the source, whose
  conditional-branch case is kept as it is written.  C++ \<open>>>\<close> on an \<open>int\<close> is
  \<open>signed_drop_bit\<close>.
\<close>

datatype arm_pass = Arm_break | Arm_next "byte list" int nat nat

definition forwardARM_body ::
  "x86_consts \<Rightarrow> byte list \<Rightarrow> int \<Rightarrow> int \<Rightarrow> nat \<Rightarrow> arm_pass option" where
  "forwardARM_body c arr idx srcIdx fpRun =
     (case (LittleEndian_readInt32 arr (idx + srcIdx), rd_range arr (idx + srcIdx) 4) of
        (Some instr, Some raw) \<Rightarrow>
          let opcode1 = instr AND ARM_B_OPCODE_MASK c;
              isBL = (opcode1 = ARM_OPCODE_B c \<or> opcode1 = ARM_OPCODE_BL c);
              isCB = False
          in if \<not> isBL \<and> \<not> isCB
             then Some (Arm_next raw (srcIdx + 4) 0 fpRun)
             else
               let (addr, val) =
                     (if isBL then
                        let offset = instr AND ARM_B_ADDR_MASK c;
                            sgnb = instr AND ARM_B_ADDR_SGN_MASK c;
                            addr0 = word_of_int srcIdx +
                                    4 * (if sgnb = 0 then offset else ARM_B_OPCODE_MASK c OR offset);
                            addr = (if sint addr0 < 0 then 0 else addr0)
                        in (addr, opcode1 OR signed_drop_bit 2 addr)
                      else
                        let offset = signed_drop_bit (ARM_CB_REG_BITS c) (instr AND ARM_CB_ADDR_MASK c);
                            sgnb = instr AND ARM_CB_ADDR_SGN_MASK c;
                            addr0 = word_of_int srcIdx +
                                    4 * (if sgnb = 0 then offset else 0xFFFC0000 OR offset);
                            addr = (if sint addr0 < 0 then 0 else addr0)
                        in (addr, (instr AND NOT (ARM_CB_ADDR_MASK c)) OR
                                  push_bit (ARM_CB_REG_BITS c) (signed_drop_bit 2 addr)))
               in if addr = 0
                  then (if fpRun + 1 = 4 then Some Arm_break
                        else Some (Arm_next (LittleEndian_writeInt32 val @ raw) (srcIdx + 4) 0
                                     (fpRun + 1)))
                  else Some (Arm_next (LittleEndian_writeInt32 val) (srcIdx + 4) 1 0)
      | _ \<Rightarrow> None)"

function forwardARM_loop ::
  "x86_consts \<Rightarrow> byte list \<Rightarrow> int \<Rightarrow> int \<Rightarrow> int \<Rightarrow> byte list \<Rightarrow> nat \<Rightarrow> nat \<Rightarrow>
   (int \<times> byte list \<times> nat) option" where
  "forwardARM_loop c arr idx codeEnd srcIdx dst matches fpRun =
     (if srcIdx < codeEnd then
        (case forwardARM_body c arr idx srcIdx fpRun of
           None \<Rightarrow> None
         | Some Arm_break \<Rightarrow> Some (srcIdx, dst, matches)
         | Some (Arm_next out srcIdx' m fpRun') \<Rightarrow>
             if srcIdx < srcIdx'
             then forwardARM_loop c arr idx codeEnd srcIdx' (dst @ out) (matches + m) fpRun'
             else None)
      else Some (srcIdx, dst, matches))"
  by pat_completeness auto
termination
  by (relation "measure (\<lambda>(c, arr, idx, codeEnd, srcIdx, dst, matches, fpRun).
                  nat (codeEnd - srcIdx))")
     auto

declare forwardARM_loop.simps [simp del]

definition forwardARM ::
  "x86_consts \<Rightarrow> byte list \<Rightarrow> int \<Rightarrow> int \<Rightarrow> int \<Rightarrow> int \<Rightarrow> (bool \<times> byte list) option" where
  "forwardARM c arr idx count codeStart codeEnd =
     (case (if codeStart > 0 then rd_range arr idx codeStart else Some []) of
        None \<Rightarrow> None
      | Some head \<Rightarrow>
         (case forwardARM_loop c arr idx codeEnd codeStart head 0 0 of
            None \<Rightarrow> None
          | Some (srcIdx, dst, matches) \<Rightarrow>
              if matches < 16 then Some (False, [])
              else (case rd_range arr (idx + srcIdx) (count - srcIdx) of
                      None \<Rightarrow> None
                    | Some rest \<Rightarrow>
                        Some (True,
                              [ARM64 c] @ LittleEndian_writeInt32 (word_of_int codeStart)
                                @ LittleEndian_writeInt32 (word_of_int (9 + int (length dst)))
                                @ dst @ rest))))"

subsection \<open>What is rewritten, in the spec's words\<close>

text \<open>
  These definitions follow the spec, not the code.  The filter looks at the code section
  instruction by instruction.  An X86 instruction is a relative call or jump when its
  opcode is \<^verbatim>\<open>E8\<close>/\<^verbatim>\<open>E9\<close> or, after the prefix \<^verbatim>\<open>0F\<close>, \<^verbatim>\<open>8?\<close>; its offset is rewritten
  into an absolute address when the high byte of the offset is \<^verbatim>\<open>00\<close> or \<^verbatim>\<open>FF\<close> (and the
  offset is not \<^verbatim>\<open>FF000000\<close>).  A rewritten instruction takes the opcode and four bytes;
  anything else is passed over one byte at a time.
\<close>

definition x86_prefixed :: "x86_consts \<Rightarrow> byte list \<Rightarrow> int \<Rightarrow> int \<Rightarrow> bool" where
  "x86_prefixed c arr idx srcIdx \<longleftrightarrow> rd arr (idx + srcIdx) = Some (X86_TWO_BYTE_PREFIX c)"

definition x86_opcode_pos :: "x86_consts \<Rightarrow> byte list \<Rightarrow> int \<Rightarrow> int \<Rightarrow> int" where
  "x86_opcode_pos c arr idx srcIdx = (if x86_prefixed c arr idx srcIdx then srcIdx + 1 else srcIdx)"

definition x86_relative_jump :: "x86_consts \<Rightarrow> byte list \<Rightarrow> int \<Rightarrow> int \<Rightarrow> bool" where
  "x86_relative_jump c arr idx srcIdx \<longleftrightarrow>
     (case rd arr (idx + x86_opcode_pos c arr idx srcIdx) of
        None \<Rightarrow> False
      | Some opc \<Rightarrow>
          if x86_prefixed c arr idx srcIdx
          then opc AND X86_MASK_JCC c = X86_INSTRUCTION_JCC c
          else opc AND X86_MASK_JUMP c = X86_INSTRUCTION_JUMP c)"

definition x86_rewritable :: "x86_consts \<Rightarrow> byte list \<Rightarrow> int \<Rightarrow> int \<Rightarrow> bool" where
  "x86_rewritable c arr idx srcIdx \<longleftrightarrow>
     x86_relative_jump c arr idx srcIdx \<and>
     (let k = x86_opcode_pos c arr idx srcIdx in
      case (rd arr (idx + (k + 4)), LittleEndian_readInt32 arr (idx + (k + 1))) of
        (Some high, Some offset) \<Rightarrow> (high = 0 \<or> high = 0xFF) \<and> offset \<noteq> 0xFF000000
      | _ \<Rightarrow> False)"

definition x86_next :: "x86_consts \<Rightarrow> byte list \<Rightarrow> int \<Rightarrow> int \<Rightarrow> int" where
  "x86_next c arr idx srcIdx =
     x86_opcode_pos c arr idx srcIdx + (if x86_rewritable c arr idx srcIdx then 5 else 1)"

text \<open>The number of offsets rewritten in the code section from \<open>srcIdx\<close> to \<open>codeEnd\<close>.\<close>

function x86_rewritten :: "x86_consts \<Rightarrow> byte list \<Rightarrow> int \<Rightarrow> int \<Rightarrow> int \<Rightarrow> nat" where
  "x86_rewritten c arr idx codeEnd srcIdx =
     (if srcIdx < codeEnd
      then (if x86_rewritable c arr idx srcIdx then 1 else 0) +
           x86_rewritten c arr idx codeEnd (x86_next c arr idx srcIdx)
      else 0)"
  by pat_completeness auto
termination
  by (relation "measure (\<lambda>(c, arr, idx, codeEnd, srcIdx). nat (codeEnd - srcIdx))")
     (auto simp: x86_next_def x86_opcode_pos_def)

declare x86_rewritten.simps [simp del]

text \<open>
  An ARM64 instruction is four bytes.  It is a branch when its opcode is \<^verbatim>\<open>B\<close> or \<^verbatim>\<open>BL\<close>;
  the target of the branch is the position plus four times the signed offset, and 0
  when that is negative.  A branch whose target is 0 is a false positive, any other a
  true match; after four false positives in a row the filter leaves the code section.
\<close>

datatype arm_kind = Arm_other | Arm_false_positive | Arm_true_match

definition arm_branch_target :: "x86_consts \<Rightarrow> int32 \<Rightarrow> int \<Rightarrow> int32" where
  "arm_branch_target c instr srcIdx =
     (let offset = instr AND ARM_B_ADDR_MASK c;
          target = word_of_int srcIdx +
                   4 * (if instr AND ARM_B_ADDR_SGN_MASK c = 0 then offset
                        else ARM_B_OPCODE_MASK c OR offset)
      in if sint target < 0 then 0 else target)"

definition arm_kind_at :: "x86_consts \<Rightarrow> byte list \<Rightarrow> int \<Rightarrow> int \<Rightarrow> arm_kind option" where
  "arm_kind_at c arr idx srcIdx =
     (case LittleEndian_readInt32 arr (idx + srcIdx) of
        None \<Rightarrow> None
      | Some instr \<Rightarrow>
          Some (if instr AND ARM_B_OPCODE_MASK c \<noteq> ARM_OPCODE_B c \<and>
                   instr AND ARM_B_OPCODE_MASK c \<noteq> ARM_OPCODE_BL c then Arm_other
                else if arm_branch_target c instr srcIdx = 0 then Arm_false_positive
                else Arm_true_match))"

text \<open>
  The number of true matches from \<open>srcIdx\<close> to \<open>codeEnd\<close>, after \<open>fpRun\<close> false positives in
  a row.
\<close>

function arm_true_matches ::
  "x86_consts \<Rightarrow> byte list \<Rightarrow> int \<Rightarrow> int \<Rightarrow> int \<Rightarrow> nat \<Rightarrow> nat" where
  "arm_true_matches c arr idx codeEnd srcIdx fpRun =
     (if srcIdx < codeEnd then
        (case arm_kind_at c arr idx srcIdx of
           None \<Rightarrow> 0
         | Some Arm_other \<Rightarrow> arm_true_matches c arr idx codeEnd (srcIdx + 4) fpRun
         | Some Arm_false_positive \<Rightarrow>
             if fpRun + 1 = 4 then 0
             else arm_true_matches c arr idx codeEnd (srcIdx + 4) (fpRun + 1)
         | Some Arm_true_match \<Rightarrow> 1 + arm_true_matches c arr idx codeEnd (srcIdx + 4) 0)
      else 0)"
  by pat_completeness auto
termination
  by (relation "measure (\<lambda>(c, arr, idx, codeEnd, srcIdx, fpRun). nat (codeEnd - srcIdx))") auto

declare arm_true_matches.simps [simp del]

subsection \<open>Samples\<close>

text \<open>
  A block for concrete runs: sixteen calls \<^verbatim>\<open>E8 00 00 00 00\<close> followed by the eight bytes
  that \<^verbatim>\<open>X86Codec::forward\<close> keeps out of the code section (\<open>codeEnd = count - 8\<close>).
\<close>

definition x86_sample :: "byte list" where
  "x86_sample =
     [0xE8, 0, 0, 0, 0, 0xE8, 0, 0, 0, 0, 0xE8, 0, 0, 0, 0, 0xE8, 0, 0, 0, 0, 0xE8,
      0, 0, 0, 0, 0xE8, 0, 0, 0, 0, 0xE8, 0, 0, 0, 0, 0xE8, 0, 0, 0, 0, 0xE8, 0, 0,
      0, 0, 0xE8, 0, 0, 0, 0, 0xE8, 0, 0, 0, 0, 0xE8, 0, 0, 0, 0, 0xE8, 0, 0, 0, 0,
      0xE8, 0, 0, 0, 0, 0xE8, 0, 0, 0, 0, 0xE8, 0, 0, 0, 0, 0, 0, 0, 0, 0, 0, 0, 0]"

definition x86_sample_encoded :: "byte list" where
  "x86_sample_encoded =
     [64, 0, 0, 0, 0, 89, 0, 0, 0, 232, 240, 240, 240, 240, 232, 240, 240, 240, 245,
      232, 240, 240, 240, 250, 232, 240, 240, 240, 255, 232, 240, 240, 240, 228, 232, 240, 240, 240,
      233, 232, 240, 240, 240, 238, 232, 240, 240, 240, 211, 232, 240, 240, 240, 216, 232, 240, 240,
      240, 221, 232, 240, 240, 240, 194, 232, 240, 240, 240, 199, 232, 240, 240, 240, 204, 232, 240,
      240, 240, 177, 232, 240, 240, 240, 182, 232, 240, 240, 240, 187, 0, 0, 0, 0, 0, 0,
      0, 0]"




text \<open>
  A call that is rewritten and a call whose offset has the high byte \<^verbatim>\<open>12\<close>, which is
  not; and four ARM64 instructions: a \<^verbatim>\<open>B\<close> to the address 0 (a false positive), a \<^verbatim>\<open>BL\<close>
  to the address 8 (a true match), a \<^verbatim>\<open>NOP\<close> and a zero word.
\<close>

definition x86_short_sample :: "byte list" where
  "x86_short_sample = [0xE8, 0, 0, 0, 0, 0xE8, 0, 0, 0, 0x12, 0, 0, 0, 0, 0, 0, 0, 0, 0, 0]"

definition arm_sample :: "byte list" where
  "arm_sample =
     [0, 0, 0, 0x14, 1, 0, 0, 0x94, 0x1F, 0x20, 0x03, 0xD5, 0, 0, 0, 0, 0, 0, 0, 0, 0, 0, 0, 0]"

section \<open>Definitions: ROLZCodec1::findMatch\<close>

text \<open>
  The state of a \<^verbatim>\<open>ROLZCodec1\<close> (\<^verbatim>\<open>_counters\<close> and \<^verbatim>\<open>_matches\<close>): the write cursor of every 16-bit key, and the rings of
  32-bit slots, \<open>posChecks\<close> per key, in one array.  \<^verbatim>\<open>ROLZCodec.hpp\<close> is not among the
  sources, so \<^verbatim>\<open>getKey\<close>, \<^verbatim>\<open>hash\<close>, \<^verbatim>\<open>HASH_MASK\<close>, \<^verbatim>\<open>MIN_MATCH\<close> and \<^verbatim>\<open>MAX_MATCH\<close> are
  parameters, and a cursor is kept as the \<open>int\<close> the function reads it into
  (\<^verbatim>\<open>const int counter = _counters[key]\<close>).  \<open>logPosChecks\<close> is the constructor's
  argument; \<open>_posChecks = 1 << logPosChecks\<close> and \<open>_maskChecks = _posChecks - 1\<close>.
\<close>

record rolz_consts =
  getKey :: "byte list \<Rightarrow> int \<Rightarrow> 16 word"  \<comment> \<open>\<^verbatim>\<open>getKey(&buf[i])\<close>\<close>
  hash :: "byte list \<Rightarrow> int \<Rightarrow> int32"      \<comment> \<open>\<^verbatim>\<open>hash(&buf[i])\<close>\<close>
  HASH_MASK :: int32
  MIN_MATCH :: int
  MAX_MATCH :: int
  logPosChecks :: nat

definition posChecks :: "rolz_consts \<Rightarrow> int" where
  "posChecks c = push_bit (logPosChecks c) 1"

definition maskChecks :: "rolz_consts \<Rightarrow> int" where
  "maskChecks c = posChecks c - 1"

record rolz_state =
  rolz_counters :: "16 word \<Rightarrow> int"
  rolz_matches :: "nat \<Rightarrow> int32"

text \<open>The slot \<^verbatim>\<open>matches[j]\<close> of the ring of \<open>key\<close>, \<^verbatim>\<open>matches = &_matches[key << _logPosChecks]\<close>.\<close>

definition slot :: "rolz_consts \<Rightarrow> 16 word \<Rightarrow> int \<Rightarrow> nat" where
  "slot c key j = nat (push_bit (logPosChecks c) (uint key) + j)"

text \<open>
  The two loops that extend a match at \<open>ref\<close> against the bytes at \<open>pos\<close>: four bytes at a
  time (\<^verbatim>\<open>memcmp\<close>; the source's \<^verbatim>\<open>if\<close> followed by a \<^verbatim>\<open>while\<close> with the same test
  is this one loop), then byte by byte.
\<close>

function extend4 :: "byte list \<Rightarrow> int \<Rightarrow> int \<Rightarrow> int \<Rightarrow> int \<Rightarrow> int option" where
  "extend4 buf ref pos maxMatch n =
     (if n + 4 < maxMatch then
        (case (rd_range buf (ref + n) 4, rd_range buf (pos + n) 4) of
           (Some a, Some b) \<Rightarrow> if a = b then extend4 buf ref pos maxMatch (n + 4) else Some n
         | _ \<Rightarrow> None)
      else Some n)"
  by pat_completeness auto
termination
  by (relation "measure (\<lambda>(buf, ref, pos, maxMatch, n). nat (maxMatch - n))") auto

declare extend4.simps [simp del]

function extend1 :: "byte list \<Rightarrow> int \<Rightarrow> int \<Rightarrow> int \<Rightarrow> int \<Rightarrow> int option" where
  "extend1 buf ref pos maxMatch n =
     (if n < maxMatch then
        (case (rd buf (ref + n), rd buf (pos + n)) of
           (Some a, Some b) \<Rightarrow> if a = b then extend1 buf ref pos maxMatch (n + 1) else Some n
         | _ \<Rightarrow> None)
      else Some n)"
  by pat_completeness auto
termination
  by (relation "measure (\<lambda>(buf, ref, pos, maxMatch, n). nat (maxMatch - n))") auto

declare extend1.simps [simp del]

text \<open>
  \<^verbatim>\<open>for (int i = counter; i > counter - _posChecks; i--)\<close>: the search through the ring,
  newest registration first, with the \<^verbatim>\<open>continue\<close>s and the \<^verbatim>\<open>break\<close> of the source.  It
  returns \<open>(bestLen, bestIdx)\<close>.
\<close>

function findMatch_loop ::
  "rolz_consts \<Rightarrow> rolz_state \<Rightarrow> byte list \<Rightarrow> int \<Rightarrow> int \<Rightarrow> 16 word \<Rightarrow> int32 \<Rightarrow> int \<Rightarrow>
   int \<Rightarrow> int \<Rightarrow> int \<Rightarrow> (int \<times> int) option" where
  "findMatch_loop c st buf pos maxMatch key hash32 counter i bestLen bestIdx =
     (if i > counter - posChecks c then
        (let ref0 = rolz_matches st (slot c key (i AND maskChecks c)) in
         if ref0 AND HASH_MASK c \<noteq> hash32
         then findMatch_loop c st buf pos maxMatch key hash32 counter (i - 1) bestLen bestIdx
         else
           let ref = sint (ref0 AND NOT (HASH_MASK c)) in
           (case (rd buf (ref + bestLen), rd buf (pos + bestLen)) of
              (Some a, Some b) \<Rightarrow>
                if a \<noteq> b
                then findMatch_loop c st buf pos maxMatch key hash32 counter (i - 1) bestLen bestIdx
                else
                  (case extend4 buf ref pos maxMatch 0 of
                     None \<Rightarrow> None
                   | Some n4 \<Rightarrow>
                      (case extend1 buf ref pos maxMatch n4 of
                         None \<Rightarrow> None
                       | Some n \<Rightarrow>
                          if n > bestLen
                          then (if n = maxMatch then Some (n, counter - i)
                                else findMatch_loop c st buf pos maxMatch key hash32 counter
                                       (i - 1) n (counter - i))
                          else findMatch_loop c st buf pos maxMatch key hash32 counter
                                 (i - 1) bestLen bestIdx))
            | _ \<Rightarrow> None))
      else Some (bestLen, bestIdx))"
  by pat_completeness auto
termination
  by (relation "measure (\<lambda>(c, st, buf, pos, maxMatch, key, hash32, counter, i, bestLen, bestIdx).
                  nat (i - (counter - posChecks c)))") auto

declare findMatch_loop.simps [simp del]

text \<open>
  \<open>findMatch\<close>: the returned \<open>int\<close> and the state after the registration of \<open>pos\<close>.
  \<open>(bestIdx << 16) | (bestLen - MIN_MATCH)\<close> is computed on \<open>int\<close>; both operands are
  non-negative and below \<open>2\<^sup>3\<^sup>1\<close> where the expression is evaluated.
\<close>

definition findMatch ::
  "rolz_consts \<Rightarrow> rolz_state \<Rightarrow> byte list \<Rightarrow> int \<Rightarrow> int \<Rightarrow> (int \<times> rolz_state) option" where
  "findMatch c st buf pos endPos =
     (let key = getKey c buf (pos - 2);
          counter = rolz_counters st key;
          hash32 = hash c buf pos;
          maxMatch = min (MAX_MATCH c) (endPos - pos)
      in case findMatch_loop c st buf pos maxMatch key hash32 counter counter 0 (- 1) of
           None \<Rightarrow> None
         | Some (bestLen, bestIdx) \<Rightarrow>
             let counter' = (rolz_counters st key + 1) AND maskChecks c;
                 st' = st\<lparr>rolz_counters := (rolz_counters st)(key := counter'),
                         rolz_matches := (rolz_matches st)(slot c key counter' := hash32 OR word_of_int pos)\<rparr>
             in Some (if bestLen < MIN_MATCH c then - 1
                      else push_bit 16 bestIdx OR (bestLen - MIN_MATCH c),
                      st'))"

subsection \<open>The best match, in the spec's words\<close>

text \<open>
  These definitions follow the spec, not the code.  The length of the match of a
  reference \<open>ref\<close> against the position \<open>pos\<close> is the number of leading bytes that are
  equal at both, at most \<open>maxMatch\<close>.
\<close>

definition bytes_equal :: "byte list \<Rightarrow> int \<Rightarrow> int \<Rightarrow> int \<Rightarrow> bool" where
  "bytes_equal buf ref pos k \<longleftrightarrow>
     (case (rd buf (ref + k), rd buf (pos + k)) of (Some a, Some b) \<Rightarrow> a = b | _ \<Rightarrow> False)"

definition match_length :: "byte list \<Rightarrow> int \<Rightarrow> int \<Rightarrow> int \<Rightarrow> int" where
  "match_length buf ref pos maxMatch =
     int (length (takeWhile (\<lambda>k. bytes_equal buf ref pos (int k)) [0 ..< nat maxMatch]))"

text \<open>
  The ring of a key holds \<open>posChecks\<close> entries; the entry at distance \<open>d\<close> is the one
  registered \<open>d\<close> calls before the newest.  It is a candidate when its hash bits are
  those of the current position; its other bits are the position it refers to.
\<close>

definition ring_entry :: "rolz_consts \<Rightarrow> rolz_state \<Rightarrow> 16 word \<Rightarrow> int \<Rightarrow> int \<Rightarrow> int32" where
  "ring_entry c st key counter d = rolz_matches st (slot c key ((counter - d) AND maskChecks c))"

definition candidate ::
  "rolz_consts \<Rightarrow> rolz_state \<Rightarrow> 16 word \<Rightarrow> int \<Rightarrow> int32 \<Rightarrow> int \<Rightarrow> bool" where
  "candidate c st key counter hash32 d \<longleftrightarrow>
     0 \<le> d \<and> d < posChecks c \<and> ring_entry c st key counter d AND HASH_MASK c = hash32"

definition candidate_length ::
  "rolz_consts \<Rightarrow> rolz_state \<Rightarrow> byte list \<Rightarrow> int \<Rightarrow> int \<Rightarrow> 16 word \<Rightarrow> int \<Rightarrow> int \<Rightarrow> int" where
  "candidate_length c st buf pos maxMatch key counter d =
     match_length buf (sint (ring_entry c st key counter d AND NOT (HASH_MASK c))) pos maxMatch"

text \<open>
  \<open>(bestLen, bestIdx)\<close> is the best match among the candidates at a distance below \<open>D\<close>:
  no candidate matches more than \<open>bestLen\<close> bytes; and either no candidate matches a
  byte (length 0, index \<open>-1\<close>), or \<open>bestIdx\<close> is the distance of the nearest candidate that
  matches \<open>bestLen\<close> bytes.
\<close>

definition best_of :: "(int \<Rightarrow> bool) \<Rightarrow> (int \<Rightarrow> int) \<Rightarrow> int \<Rightarrow> int \<Rightarrow> int \<Rightarrow> bool" where
  "best_of cand len D bestLen bestIdx \<longleftrightarrow>
     (\<forall>d. cand d \<and> d < D \<longrightarrow> len d \<le> bestLen) \<and>
     ((bestLen = 0 \<and> bestIdx = - 1) \<or>
      (0 < bestLen \<and> bestIdx < D \<and> cand bestIdx \<and> len bestIdx = bestLen \<and>
       (\<forall>d. cand d \<and> d < bestIdx \<longrightarrow> len d < bestLen)))"

subsection \<open>A sample\<close>

text \<open>
  Values for concrete runs: a little-endian 16-bit key, a hash that keeps the first
  byte in the top 8 bits, \<open>MIN_MATCH = 3\<close>, rings of four entries.  In the buffer the
  key \<^verbatim>\<open>09 09\<close> precedes the positions 2, 9 and 15; the state is the one in which the
  positions 2 and then 9 have been registered.  At 15 the reference 9 (distance 0)
  matches 3 bytes and the reference 2 (distance 1) matches 5.
\<close>

definition rolz_sample_consts :: rolz_consts where
  "rolz_sample_consts =
     \<lparr>getKey = (\<lambda>buf i. ucast (buf ! nat i) OR push_bit 8 (ucast (buf ! nat (i + 1)))),
      hash = (\<lambda>buf i. push_bit 24 (ucast (buf ! nat i))),
      HASH_MASK = 0xFF000000, MIN_MATCH = 3, MAX_MATCH = 65538, logPosChecks = 2\<rparr>"

definition rolz_sample_buf :: "byte list" where
  "rolz_sample_buf =
     [9, 9, 1, 2, 3, 4, 5, 9, 9, 1, 2, 3, 8, 9, 9, 1, 2, 3, 4, 5, 6, 6, 6, 6]"

definition rolz_sample_state :: rolz_state where
  "rolz_sample_state =
     \<lparr>rolz_counters = (\<lambda>k. 0)(0x0909 := 2),
      rolz_matches = (\<lambda>j. 0)(slot rolz_sample_consts 0x0909 1 := 0x01000002,
                              slot rolz_sample_consts 0x0909 2 := 0x01000009)\<rparr>"

section \<open>Definitions: UTFCodec::forward\<close>

text \<open>C++ integer division truncates towards zero.\<close>

definition c_div :: "int \<Rightarrow> int \<Rightarrow> int" where
  "c_div a b = sgn a * sgn b * (\<bar>a\<bar> div \<bar>b\<bar>)"

text \<open>\<^verbatim>\<open>const int UTFCodec::SIZES[16] = { 1, 1, 1, 1, 1, 1, 1, 1, 0, 0, 0, 0, 2, 2, 3, 4 }\<close>\<close>

definition SIZES :: "nat list" where
  "SIZES = [1, 1, 1, 1, 1, 1, 1, 1, 0, 0, 0, 0, 2, 2, 3, 4]"

subsection \<open>validate\<close>

text \<open>
  \<open>validate\<close> builds the histogram \<open>freqs0\<close> of the bytes of the block and the histogram
  \<open>freqs\<close> of the pairs (previous byte, byte), the byte before the first one being 0; the
  four-way unrolled loop and the loop for the rest add up to these counts.  Every early
  return is a \<open>false\<close>, so the loop over \<open>i\<close> is the conjunction of its tests.
  \<open>validate src start count\<close> is the call \<^verbatim>\<open>validate(&src[start], count)\<close>: the two loops
  read \<^verbatim>\<open>block[i]\<close> for \<^verbatim>\<open>count & -4 \<le> i < count\<close> when \<open>count\<close> is negative, and for
  \<open>0 \<le> i < count\<close> otherwise.
\<close>

definition freqs0 :: "byte list \<Rightarrow> nat \<Rightarrow> nat" where
  "freqs0 data i = length (filter (\<lambda>b. unat b = i) data)"

definition freqs :: "byte list \<Rightarrow> nat \<Rightarrow> nat \<Rightarrow> nat" where
  "freqs data p i = length (filter (\<lambda>(a, b). unat a = p \<and> unat b = i) (zip (0 # data) data))"

definition validate :: "byte list \<Rightarrow> int \<Rightarrow> int \<Rightarrow> bool option" where
  "validate src start count =
     (let lo = (if count < 0 then count - count mod 4 else 0) in
      case (if lo = count then Some [] else rd_range src (start + lo) (count - lo)) of
        None \<Rightarrow> None
      | Some data \<Rightarrow>
          Some (if freqs0 data 0xC0 > 0 \<or> freqs0 data 0xC1 > 0 then False
                else if \<exists>i \<in> set [0xF5 ..< 0x100]. freqs0 data i > 0 then False
                else if \<exists>i \<in> set [0 ..< 256].
                          ((i < 0xA0 \<or> i > 0xBF) \<and> freqs data 0xE0 i > 0) \<or>
                          ((i < 0x80 \<or> i > 0x9F) \<and> freqs data 0xED i > 0) \<or>
                          ((i < 0x90 \<or> i > 0xBF) \<and> freqs data 0xF0 i > 0) \<or>
                          ((i < 0x80 \<or> i > 0xBF) \<and> freqs data 0xF4 i > 0) then False
                else c_div count 4 \<le> int (sum_list (map (freqs0 data) [0x80 ..< 0xC0]))))"

subsection \<open>forward\<close>

text \<open>
  \<^verbatim>\<open>UTFCodec.hpp\<close>, \<^verbatim>\<open>Global.hpp\<close> and the context are not among the sources.  The
  parameters of the model: \<^verbatim>\<open>MIN_BLOCK_SIZE\<close>; \<^verbatim>\<open>SliceArray::isValid\<close>; the data type the
  context holds (\<open>None\<close> when \<^verbatim>\<open>_pCtx\<close> is null); \<^verbatim>\<open>pack(&src[i], val)\<close>, which returns the
  number of bytes of the code point at \<open>i\<close> (0 when there is none) and its packed value;
  and the result of \<^verbatim>\<open>std::sort\<close> on \<open>ranks\<close> under the comparator \<^verbatim>\<open>SortRanks\<close>.
\<close>

datatype DataType = UNDEFINED | UTF8 | Other_type

record utf_params =
  UTF_MIN_BLOCK_SIZE :: int
  UTF_isValid :: "SliceArray \<Rightarrow> bool"
  dataType :: "DataType option"
  pack :: "byte list \<Rightarrow> int \<Rightarrow> nat \<times> 32 word"
  sortRanks :: "(32 word \<times> nat) list \<Rightarrow> nat list"

text \<open>\<^verbatim>\<open>while ((start < 4) && (SIZES[uint8(src[start]) >> 4] == 0)) start++\<close>\<close>

function skip_start :: "byte list \<Rightarrow> int \<Rightarrow> int option" where
  "skip_start src start =
     (if start < 4 then
        (case rd src start of
           None \<Rightarrow> None
         | Some b \<Rightarrow> if SIZES ! unat (drop_bit 4 b) = 0 then skip_start src (start + 1)
                     else Some start)
      else Some start)"
  by pat_completeness auto
termination
  by (relation "measure (\<lambda>(src, start). nat (4 - start))") auto

declare skip_start.simps [simp del]

text \<open>
  The first loop: it counts every code point of \<^verbatim>\<open>src[start .. count - 4)\<close> in \<open>aliasMap\<close>
  (an array of \<open>2\<^sup>2\<^sup>3\<close> counters) and collects the distinct ones in \<open>symb\<close>.  It returns
  \<open>res\<close>, \<open>aliasMap\<close> and \<open>symb\<close>; \<open>n\<close> is \<open>length symb\<close>.
\<close>

function count_symbols ::
  "utf_params \<Rightarrow> byte list \<Rightarrow> int \<Rightarrow> int \<Rightarrow> (nat \<Rightarrow> nat) \<Rightarrow> 32 word list \<Rightarrow>
   (bool \<times> (nat \<Rightarrow> nat) \<times> 32 word list) option" where
  "count_symbols P src count i aliasMap symb =
     (if i < count - 4 then
        (case pack P src i of (s, val) \<Rightarrow>
           if s = 0 then Some (False, aliasMap, symb)
           else if \<not> unat val < 2 ^ 23 then None
           else if aliasMap (unat val) = 0 \<and> length symb + 1 \<ge> 32768
           then Some (False, aliasMap, symb @ [val])
           else count_symbols P src count (i + int s)
                  (aliasMap(unat val := aliasMap (unat val) + 1))
                  (if aliasMap (unat val) = 0 then symb @ [val] else symb))
      else Some (True, aliasMap, symb))"
  by pat_completeness auto
termination
  by (relation "measure (\<lambda>(P, src, count, i, aliasMap, symb). nat (count - 4 - i))") auto

declare count_symbols.simps [simp del]

text \<open>
  The map: \<^verbatim>\<open>for (int i = 0; i < n; i++) { r = ranks[n - 1 - i]; s = symb[r].sym; aliasMap[s] = i; \<dots> }\<close>
  writes three bytes per symbol and turns \<open>aliasMap\<close> into the map from symbol to alias.
\<close>

fun emit_map ::
  "32 word list \<Rightarrow> nat list \<Rightarrow> nat \<Rightarrow> nat list \<Rightarrow> (nat \<Rightarrow> nat) \<Rightarrow> byte list \<Rightarrow>
   ((nat \<Rightarrow> nat) \<times> byte list) option" where
  "emit_map symb ranks n [] aliasMap dst = Some (aliasMap, dst)"
| "emit_map symb ranks n (i # is) aliasMap dst =
     (if n - 1 - i < length ranks \<and> ranks ! (n - 1 - i) < length symb
      then let r = ranks ! (n - 1 - i);
               s = symb ! r
           in emit_map symb ranks n is (aliasMap(unat s := i))
                (dst @ [ucast (drop_bit 16 s), ucast (drop_bit 8 s), ucast s])
      else None)"

text \<open>
  The second loop: \<^verbatim>\<open>while (srcIdx < count - 4)\<close> emits the alias of each code point.  The
  source does not test the size that \<open>pack\<close> returns here, so nothing bounds the loop:
  \<open>None\<close> stands for a run that does not end (or reads outside \<open>aliasMap\<close>).
\<close>

partial_function (option) emit_aliases ::
  "utf_params \<Rightarrow> byte list \<Rightarrow> int \<Rightarrow> (nat \<Rightarrow> nat) \<Rightarrow> int \<Rightarrow> byte list \<Rightarrow> (int \<times> byte list) option"
  where
  "emit_aliases P src count aliasMap srcIdx dst =
     (if srcIdx < count - 4 then
        (case pack P src srcIdx of (s, val) \<Rightarrow>
           if \<not> unat val < 2 ^ 23 then None
           else let alias = aliasMap (unat val) in
                emit_aliases P src count aliasMap (srcIdx + int s)
                  (dst @ (if alias \<ge> 128
                          then [of_nat alias OR 0x80, of_nat (drop_bit 7 alias)]
                          else [of_nat alias])))
      else Some (srcIdx, dst))"

declare emit_aliases.simps [code]

text \<open>
  The end of \<open>forward\<close>, from \<^verbatim>\<open>int dstIdx = 2\<close> on: the number of symbols and the map, the
  first \<open>start\<close> bytes, the aliases, the two bytes at the front, the last bytes, and the
  value returned (\<open>res\<close> is \<open>true\<close> here).
\<close>

definition encode_block ::
  "utf_params \<Rightarrow> byte list \<Rightarrow> int \<Rightarrow> int \<Rightarrow> (nat \<Rightarrow> nat) \<Rightarrow> 32 word list \<Rightarrow>
   (bool \<times> byte list) option" where
  "encode_block P src count start aliasMap symb =
     (let n = length symb;
          ranks = sortRanks P (map (\<lambda>s. (s, aliasMap (unat s))) symb);
          dst4 = [0, 0, of_nat (drop_bit 8 n), of_nat n]
      in case emit_map symb ranks n [0 ..< n] aliasMap dst4 of
           None \<Rightarrow> None
         | Some (aliasMap', dst1) \<Rightarrow>
            (case rd_range src 0 start of
               None \<Rightarrow> None
             | Some lead \<Rightarrow>
                (case emit_aliases P src count aliasMap' start (dst1 @ lead) of
                   None \<Rightarrow> None
                 | Some (srcIdx, dst2) \<Rightarrow>
                    (let dst3 = dst2[0 := word_of_int start,
                                     1 := word_of_int (srcIdx - (count - 4))]
                     in case (if srcIdx < count then rd_range src srcIdx (count - srcIdx)
                              else Some []) of
                          None \<Rightarrow> None
                        | Some rest \<Rightarrow>
                           (let dst5 = dst3 @ rest;
                                dstIdx = int (length dst5)
                            in Some (dstIdx < count - c_div count 10, dst5))))))"

text \<open>
  \<open>forward\<close>.  \<open>src\<close> is the memory at \<^verbatim>\<open>&input._array[input._index]\<close>.  The result is the
  \<open>bool\<close> and the bytes written to \<open>dst\<close> (\<^verbatim>\<open>dstIdx\<close> is their number; none on an early
  return), an exception, or \<open>None\<close> for a run with undefined behaviour or without end.
\<close>

definition UTFCodec_forward ::
  "utf_params \<Rightarrow> SliceArray \<Rightarrow> SliceArray \<Rightarrow> byte list \<Rightarrow> int \<Rightarrow>
   (cpp_error + bool \<times> byte list) option" where
  "UTFCodec_forward P input output src count =
     (if count = 0 then Some (Inr (True, []))
      else if count < UTF_MIN_BLOCK_SIZE P then Some (Inr (False, []))
      else if \<not> UTF_isValid P input then Some (Inl Invalid_input_block)
      else if \<not> UTF_isValid P output then Some (Inl Invalid_output_block)
      else if (case dataType P of None \<Rightarrow> False | Some dt \<Rightarrow> dt \<noteq> UNDEFINED \<and> dt \<noteq> UTF8)
      then Some (Inr (False, []))
      else
        (let mustValidate = (case dataType P of None \<Rightarrow> True | Some dt \<Rightarrow> dt \<noteq> UTF8) in
         case skip_start src 0 of
           None \<Rightarrow> None
         | Some start \<Rightarrow>
            (case (if mustValidate then validate src start (count - start - 4)
                   else Some True) of
               None \<Rightarrow> None
             | Some False \<Rightarrow> Some (Inr (False, []))
             | Some True \<Rightarrow>
                (case count_symbols P src count start (\<lambda>v. 0) [] of
                   None \<Rightarrow> None
                 | Some (res, aliasMap, symb) \<Rightarrow>
                    if \<not> res \<or> length symb = 0 then Some (Inr (False, []))
                    else map_option Inr (encode_block P src count start aliasMap symb)))))"

subsection \<open>A sample\<close>

text \<open>
  A \<open>pack\<close> for code points of one and two bytes, a \<open>sortRanks\<close> that orders the ranks by
  increasing frequency, and a block of twelve times the two bytes \<^verbatim>\<open>C3 A9\<close>.
\<close>

definition sample_pack :: "byte list \<Rightarrow> int \<Rightarrow> nat \<times> 32 word" where
  "sample_pack src i =
     (case rd src i of
        None \<Rightarrow> (0, 0)
      | Some b \<Rightarrow>
         if b < 0x80 then (1, ucast b)
         else if b AND 0xE0 = 0xC0 then
           (case rd src (i + 1) of
              None \<Rightarrow> (0, 0)
            | Some b1 \<Rightarrow> (2, push_bit 19 1 OR push_bit 8 (ucast b) OR ucast b1))
         else (0, 0))"

definition sample_sortRanks :: "(32 word \<times> nat) list \<Rightarrow> nat list" where
  "sample_sortRanks xs = sort_key (\<lambda>r. snd (xs ! r)) [0 ..< length xs]"

definition utf_sample_params :: utf_params where
  "utf_sample_params =
     \<lparr> UTF_MIN_BLOCK_SIZE = 8, UTF_isValid = (\<lambda>s. array_id s \<noteq> None), dataType = None,
       pack = sample_pack, sortRanks = sample_sortRanks \<rparr>"

definition utf_sample_slice :: SliceArray where
  "utf_sample_slice = \<lparr> array_id = Some 0, slice_length = 0, slice_index = 0 \<rparr>"

definition utf_sample :: "byte list" where
  "utf_sample =
     [0xC3, 0xA9, 0xC3, 0xA9, 0xC3, 0xA9, 0xC3, 0xA9, 0xC3, 0xA9, 0xC3, 0xA9,
      0xC3, 0xA9, 0xC3, 0xA9, 0xC3, 0xA9, 0xC3, 0xA9, 0xC3, 0xA9, 0xC3, 0xA9]"

section \<open>Definitions: BWT::inverse\<close>

text \<open>
  \<^verbatim>\<open>BWT.hpp\<close> and \<^verbatim>\<open>Global.hpp\<close> are not among the sources.  \<^verbatim>\<open>MAX_BLOCK_SIZE\<close>,
  \<^verbatim>\<open>BLOCK_SIZE_THRESHOLD1\<close>, \<^verbatim>\<open>BLOCK_SIZE_THRESHOLD2\<close> and \<^verbatim>\<open>SliceArray::isValid\<close> are
  parameters.  So is the part of \<open>inverseBiPSIv2\<close> that follows its test of the primary
  index: it depends on \<^verbatim>\<open>getBWTChunks\<close> and \<^verbatim>\<open>MASK_FASTBITS\<close>, and nothing stated here
  about \<open>inverse\<close> reaches it.
\<close>

text \<open>
  The members of a \<^verbatim>\<open>BWT\<close> that \<open>inverse\<close> uses: the number of elements of \<^verbatim>\<open>_buffer\<close>
  (\<open>None\<close> for \<^verbatim>\<open>nullptr\<close>), \<^verbatim>\<open>_bufferSize\<close> (which \<open>forward\<close> sets too, for \<^verbatim>\<open>_sa\<close>),
  and \<^verbatim>\<open>_primaryIndexes\<close>.
\<close>

record BWT =
  bwt_buffer :: "nat option"
  bwt_bufferSize :: int
  primaryIndexes :: "nat \<Rightarrow> int"

record 'r bwt_consts =
  BWT_MAX_BLOCK_SIZE :: int
  BLOCK_SIZE_THRESHOLD1 :: int
  BLOCK_SIZE_THRESHOLD2 :: int
  BWT_isValid :: "SliceArray \<Rightarrow> bool"
  inverseBiPSIv2_decode :: "BWT \<Rightarrow> byte list \<Rightarrow> byte list \<Rightarrow> int \<Rightarrow> 'r"

text \<open>The state of a new \<^verbatim>\<open>BWT\<close>, as the constructor leaves it.\<close>

definition BWT_new :: BWT where
  "BWT_new = \<lparr> bwt_buffer = None, bwt_bufferSize = 0, primaryIndexes = (\<lambda>n. 0) \<rparr>"

definition setPrimaryIndex :: "BWT \<Rightarrow> int \<Rightarrow> int \<Rightarrow> bool \<times> BWT" where
  "setPrimaryIndex b n primaryIndex =
     (if primaryIndex < 0 \<or> n < 0 \<or> n \<ge> 8 then (False, b)
      else (True, b\<lparr>primaryIndexes := (primaryIndexes b)(nat n := primaryIndex)\<rparr>))"

text \<open>Modelled from the spec: \<^verbatim>\<open>getPrimaryIndex(n)\<close> returns \<^verbatim>\<open>_primaryIndexes[n]\<close>.\<close>

definition getPrimaryIndex :: "BWT \<Rightarrow> nat \<Rightarrow> int" where
  "getPrimaryIndex b n = primaryIndexes b n"

text \<open>
  Modelled from the spec: \<^verbatim>\<open>Global::computeHistogram(block, count, freqs)\<close> counts the
  occurrences of every byte in the block.
\<close>

definition computeHistogram :: "byte list \<Rightarrow> nat \<Rightarrow> nat" where
  "computeHistogram block v = length (filter (\<lambda>b. unat b = v) block)"

text \<open>A write \<^verbatim>\<open>xs[i] = v\<close>; \<open>None\<close> when \<open>i\<close> is outside the array.\<close>

definition wr :: "'a list \<Rightarrow> int \<Rightarrow> 'a \<Rightarrow> 'a list option" where
  "wr xs i v = (if 0 \<le> i \<and> i < int (length xs) then Some (xs[nat i := v]) else None)"

text \<open>
  \<^verbatim>\<open>for (int i = 0, sum = 0; i < 256; i++) { tmp = buckets[i]; buckets[i] = sum; sum += tmp; }\<close>
\<close>

definition bucket_starts :: "byte list \<Rightarrow> nat \<Rightarrow> nat" where
  "bucket_starts block v = sum_list (map (computeHistogram block) [0 ..< v])"

text \<open>
  The two loops that fill \<^verbatim>\<open>_buffer\<close>, the first for \<open>i < pIdx\<close> and the second for
  \<open>pIdx \<le> i < count\<close>, as one pass over the bytes \<open>src[i], src[i + 1], \<dots>\<close>.
\<close>

fun fill_buffer ::
  "int \<Rightarrow> int \<Rightarrow> byte list \<Rightarrow> (nat \<Rightarrow> nat) \<Rightarrow> 32 word list \<Rightarrow> 32 word list option" where
  "fill_buffer pIdx i [] buckets buf = Some buf"
| "fill_buffer pIdx i (b # bs) buckets buf =
     (case wr buf (int (buckets (unat b)))
             ((if i < pIdx then push_bit 8 (word_of_int (i - 1)) else push_bit 8 (word_of_int i))
                OR ucast b) of
        None \<Rightarrow> None
      | Some buf' \<Rightarrow>
          fill_buffer pIdx (i + 1) bs (buckets(unat b := buckets (unat b) + 1)) buf')"

text \<open>
  Below \<^verbatim>\<open>BLOCK_SIZE_THRESHOLD1\<close>:
  \<^verbatim>\<open>for (i = 0, t = pIdx - 1; i < count; i++) { ptr = _buffer[t]; dst[i] = byte(ptr); t = ptr >> 8; }\<close>
  with \<open>ptr\<close> unsigned.  The second argument counts the bytes left.
\<close>

fun chase :: "32 word list \<Rightarrow> nat \<Rightarrow> int \<Rightarrow> int \<Rightarrow> byte list \<Rightarrow> byte list option" where
  "chase buf 0 i t dst = Some dst"
| "chase buf (Suc k) i t dst =
     (case rd buf t of
        None \<Rightarrow> None
      | Some ptr \<Rightarrow>
         (case wr dst i (ucast ptr) of
            None \<Rightarrow> None
          | Some dst' \<Rightarrow> chase buf k (i + 1) (uint (drop_bit 8 ptr)) dst'))"

text \<open>
  From \<^verbatim>\<open>BLOCK_SIZE_THRESHOLD1\<close> on, eight chunks are decoded side by side.  One unit of
  the unrolled loops, for the chunk \<open>k\<close> at position \<open>t\<close>, is
  \<^verbatim>\<open>const int ptr = _buffer[t]; dst[n + ckSize * k] = byte(ptr); t = ptr >> 8;\<close>
  with \<open>ptr\<close> signed.  \<open>chase_units\<close> runs the units of the chunks \<open>k, k + 1, \<dots>\<close> at the
  positions given and returns the values read.
\<close>

fun chase_units ::
  "32 word list \<Rightarrow> int \<Rightarrow> int \<Rightarrow> int \<Rightarrow> int list \<Rightarrow> byte list \<Rightarrow>
   (32 word list \<times> byte list) option" where
  "chase_units buf ckSize n k [] dst = Some ([], dst)"
| "chase_units buf ckSize n k (t # ts) dst =
     (case rd buf t of
        None \<Rightarrow> None
      | Some ptr \<Rightarrow>
         (case wr dst (n + ckSize * k) (ucast ptr) of
            None \<Rightarrow> None
          | Some dst1 \<Rightarrow>
             (case chase_units buf ckSize n (k + 1) ts dst1 of
                None \<Rightarrow> None
              | Some (ptrs, dst2) \<Rightarrow> Some (ptr # ptrs, dst2))))"

definition next_t :: "32 word \<Rightarrow> int" where
  "next_t ptr = sint (signed_drop_bit 8 ptr)"

text \<open>
  The loop \<^verbatim>\<open>while (true) { \<dots> n++; if (ptr7 < 0) break; }\<close>: the units of the chunks 0 to 6
  (at the positions \<open>ts\<close>) and of the chunk 7 (at \<open>t7\<close>).  It returns \<open>n\<close>, the
  positions of the chunks 0 to 6, and \<open>dst\<close>.
\<close>

function chase_eight ::
  "32 word list \<Rightarrow> int \<Rightarrow> int \<Rightarrow> int list \<Rightarrow> int \<Rightarrow> byte list \<Rightarrow>
   (int \<times> int list \<times> byte list) option" where
  "chase_eight buf ckSize n ts t7 dst =
     (case chase_units buf ckSize n 0 ts dst of
        None \<Rightarrow> None
      | Some (ptrs, dst1) \<Rightarrow>
         (case rd buf t7 of
            None \<Rightarrow> None
          | Some ptr7 \<Rightarrow>
             (case wr dst1 (n + ckSize * 7) (ucast ptr7) of
                None \<Rightarrow> None
              | Some dst2 \<Rightarrow>
                 if sint ptr7 < 0 then Some (n + 1, map next_t ptrs, dst2)
                 else chase_eight buf ckSize (n + 1) (map next_t ptrs) (next_t ptr7) dst2)))"
  by pat_completeness auto
termination
proof (relation "measure (\<lambda>(buf, ckSize, n, ts, t7, dst). nat (int (length dst) - (n + ckSize * 7)))")
  show "wf (measure (\<lambda>(buf, ckSize, n, ts, t7, dst). nat (int (length dst) - (n + ckSize * 7))))"
    by simp
next
  fix buf :: "32 word list" and ckSize n :: int and ts :: "int list" and t7 :: int
    and dst dst1 dst2 :: "byte list" and x2 ptrs and ptr7 :: "32 word"
  assume u: "chase_units buf ckSize n 0 ts dst = Some x2" "(ptrs, dst1) = x2"
    and w: "wr dst1 (n + ckSize * 7) (ucast ptr7) = Some dst2"
  have len: "chase_units buf ckSize n k ts d = Some (ps, d') \<Longrightarrow> length d' = length d"
    for k d ps d'
    by (induction ts arbitrary: k d ps d')
       (auto simp: wr_def split: option.splits if_splits)
  from u have "length dst1 = length dst" using len by metis
  moreover from w have "n + ckSize * 7 < int (length dst1)" "length dst2 = length dst1"
    by (auto simp: wr_def split: if_splits)
  ultimately show "((buf, ckSize, n + 1, map next_t ptrs, next_t ptr7, dst2),
                    (buf, ckSize, n, ts, t7, dst))
      \<in> measure (\<lambda>(buf, ckSize, n, ts, t7, dst). nat (int (length dst) - (n + ckSize * 7)))"
    by simp
qed

declare chase_eight.simps [simp del]

text \<open>The loop \<^verbatim>\<open>while (n < ckSize) { \<dots> n++; }\<close>: the units of the chunks 0 to 6.\<close>

function chase_seven ::
  "32 word list \<Rightarrow> int \<Rightarrow> int \<Rightarrow> int list \<Rightarrow> byte list \<Rightarrow> byte list option" where
  "chase_seven buf ckSize n ts dst =
     (if n < ckSize then
        (case chase_units buf ckSize n 0 ts dst of
           None \<Rightarrow> None
         | Some (ptrs, dst1) \<Rightarrow> chase_seven buf ckSize (n + 1) (map next_t ptrs) dst1)
      else Some dst)"
  by pat_completeness auto
termination
  by (relation "measure (\<lambda>(buf, ckSize, n, ts, dst). nat (ckSize - n))") auto

declare chase_seven.simps [simp del]

text \<open>
  \<open>inverseMergeTPSI\<close>.  \<open>src\<close> and \<open>dst\<close> are the memory at \<^verbatim>\<open>&input._array[input._index]\<close>
  and \<^verbatim>\<open>&output._array[output._index]\<close>.  The result is the \<open>bool\<close>, the \<^verbatim>\<open>BWT\<close> and \<open>dst\<close>;
  \<open>None\<close> stands for a run that reads or writes outside an array (the \<^verbatim>\<open>memset\<close> of
  \<^verbatim>\<open>_bufferSize\<close> elements does when \<^verbatim>\<open>_buffer\<close> has fewer).
\<close>

definition inverseMergeTPSI ::
  "'r bwt_consts \<Rightarrow> BWT \<Rightarrow> byte list \<Rightarrow> byte list \<Rightarrow> int \<Rightarrow> (bool \<times> BWT \<times> byte list) option"
  where
  "inverseMergeTPSI K b src dst count =
     (let b1 = (if bwt_buffer b = None \<or> bwt_bufferSize b < count
                then b\<lparr>bwt_bufferSize := max count 64, bwt_buffer := Some (nat (max count 64))\<rparr>
                else b);
          pIdx = getPrimaryIndex b1 0
      in if pIdx < 0 \<or> pIdx > count then Some (False, b1, dst)
         else
           (case rd_range src 0 count of
              None \<Rightarrow> None
            | Some block \<Rightarrow>
               (case bwt_buffer b1 of
                  None \<Rightarrow> None
                | Some cap \<Rightarrow>
                   if int cap < bwt_bufferSize b1 then None
                   else
                     (case fill_buffer pIdx 0 block (bucket_starts block)
                             (replicate (nat (bwt_bufferSize b1)) 0) of
                        None \<Rightarrow> None
                      | Some buf \<Rightarrow>
                         if count < BLOCK_SIZE_THRESHOLD1 K then
                           map_option (\<lambda>d. (True, b1, d))
                             (chase buf (nat count) 0 (pIdx - 1) dst)
                         else
                           (let ckSize = (if count mod 8 = 0 then count div 8
                                          else count div 8 + 1)
                            in case chase_eight buf ckSize 0
                                      [getPrimaryIndex b1 0 - 1, getPrimaryIndex b1 1 - 1,
                                       getPrimaryIndex b1 2 - 1, getPrimaryIndex b1 3 - 1,
                                       getPrimaryIndex b1 4 - 1, getPrimaryIndex b1 5 - 1,
                                       getPrimaryIndex b1 6 - 1]
                                      (getPrimaryIndex b1 7 - 1) dst of
                                 None \<Rightarrow> None
                               | Some (n, ts, dst1) \<Rightarrow>
                                  map_option (\<lambda>d. (True, b1, d))
                                    (chase_seven buf ckSize n ts dst1))))))"

text \<open>
  \<open>inverseBiPSIv2\<close>, up to its test of the primary index; what follows the test is the
  parameter \<open>inverseBiPSIv2_decode\<close>.
\<close>

definition inverseBiPSIv2 ::
  "(bool \<times> BWT \<times> byte list) option bwt_consts \<Rightarrow> BWT \<Rightarrow> byte list \<Rightarrow> byte list \<Rightarrow> int \<Rightarrow>
   (bool \<times> BWT \<times> byte list) option" where
  "inverseBiPSIv2 K b src dst count =
     (let b1 = (if bwt_buffer b = None \<or> bwt_bufferSize b < count + 1
                then b\<lparr>bwt_bufferSize := max (count + 1) 64,
                       bwt_buffer := Some (nat (max (count + 1) 64))\<rparr>
                else b);
          pIdx = getPrimaryIndex b1 0
      in if pIdx < 0 \<or> pIdx > count then Some (False, b1, dst)
         else inverseBiPSIv2_decode K b1 src dst count)"

text \<open>\<open>inverse\<close>.  An exception is \<open>Inl\<close>.\<close>

definition BWT_inverse ::
  "(bool \<times> BWT \<times> byte list) option bwt_consts \<Rightarrow> BWT \<Rightarrow> SliceArray \<Rightarrow> SliceArray \<Rightarrow>
   byte list \<Rightarrow> byte list \<Rightarrow> int \<Rightarrow> (cpp_error + bool \<times> BWT \<times> byte list) option" where
  "BWT_inverse K b input output src dst count =
     (if count = 0 then Some (Inr (True, b, dst))
      else if \<not> BWT_isValid K input then Some (Inl Invalid_input_block)
      else if \<not> BWT_isValid K output then Some (Inl Invalid_output_block)
      else if count > BWT_MAX_BLOCK_SIZE K
      then Some (Inl (Block_too_large (BWT_MAX_BLOCK_SIZE K) count))
      else if count < 2 then
        (if count = 1 then
           (case rd src 0 of
              None \<Rightarrow> None
            | Some v \<Rightarrow> map_option (\<lambda>d. Inr (True, b, d)) (wr dst 0 v))
         else Some (Inr (True, b, dst)))
      else if count \<le> BLOCK_SIZE_THRESHOLD2 K
      then map_option Inr (inverseMergeTPSI K b src dst count)
      else map_option Inr (inverseBiPSIv2 K b src dst count))"

subsection \<open>A sample\<close>

text \<open>
  Constants: \<^verbatim>\<open>MAX_BLOCK_SIZE\<close> \<open>2\<^sup>3\<^sup>0\<close>, \<^verbatim>\<open>BLOCK_SIZE_THRESHOLD1\<close> 256 and
  \<^verbatim>\<open>BLOCK_SIZE_THRESHOLD2\<close> \<open>2\<^sup>2\<^sup>3\<close>.  A \<^verbatim>\<open>BWT\<close> that has been given a block of 512 bytes
  before, so that its buffer has 512 elements (lemma \<open>bwt_sample_reachable\<close>), and whose
  primary index of chunk 1 has been set to 300.  A block of 256 bytes, the first 1 and
  the others 0.
\<close>

definition bwt_sample_consts :: "(bool \<times> BWT \<times> byte list) option bwt_consts" where
  "bwt_sample_consts =
     \<lparr> BWT_MAX_BLOCK_SIZE = 2 ^ 30, BLOCK_SIZE_THRESHOLD1 = 256,
       BLOCK_SIZE_THRESHOLD2 = 2 ^ 23, BWT_isValid = (\<lambda>s. array_id s \<noteq> None),
       inverseBiPSIv2_decode = (\<lambda>b src dst count. None) \<rparr>"

definition bwt_sample :: BWT where
  "bwt_sample =
     \<lparr> bwt_buffer = Some 512, bwt_bufferSize = 512,
       primaryIndexes = (\<lambda>n. 0)(0 := 100, 1 := 300, 2 := 1, 3 := 1, 4 := 1, 5 := 1, 6 := 1,
                                  7 := 256) \<rparr>"

definition bwt_sample_slice :: SliceArray where
  "bwt_sample_slice = \<lparr> array_id = Some 0, slice_length = 256, slice_index = 0 \<rparr>"

definition bwt_sample_src :: "byte list" where
  "bwt_sample_src = 1 # replicate 255 0"

definition bwt_sample_dst :: "byte list" where
  "bwt_sample_dst = replicate 256 0"

text \<open>The buffer that \<open>inverseMergeTPSI\<close> builds from the sample, and the block it writes.\<close>

definition bwt_sample_buffer :: "32 word list" where
  "bwt_sample_buffer =
     map (\<lambda>j. push_bit 8 (word_of_int (if 1 + int j < 100 then 1 + int j - 1 else 1 + int j)))
       [0 ..< 255] @ 0xFFFFFF01 # replicate 256 0"

definition bwt_sample_out :: "byte list" where
  "bwt_sample_out = (replicate 256 0)[224 := 1]"

section \<open>Definitions: BWTBlockCodec.Inverse over BWT::inverse\<close>



chapter \<open>Lemmas and theorems\<close>

section \<open>Proofs: BWTBlockCodec (Go)\<close>

subsection \<open>Bit slices of the primary index\<close>






lemma unat_of_nat_small: "n < 2 ^ 64 \<Longrightarrow> unat (of_nat n :: uint) = n"
  by (simp add: unat_of_nat)

lemma unat_2p: "b < 64 \<Longrightarrow> unat (2 ^ b :: uint) = 2 ^ b"
proof -
  assume b: "b < 64"
  have "(2::nat) ^ b < 2 ^ 64" using b by (rule power_strict_increasing) simp
  then have "unat (of_nat (2 ^ b) :: uint) = 2 ^ b" by (rule unat_of_nat_small)
  then show ?thesis by simp
qed


lemma push1_le: "b < 64 \<Longrightarrow> (push_bit b (1::uint) \<le> p) = (2 ^ b \<le> unat p)"
  by (simp add: word_le_nat_alt unat_2p)














subsection \<open>The empty block\<close>

lemma headerSizeBytes_pos: "(0 :: uint) < 1 + (x AND 0x03)"
proof -
  have "x AND 0x03 \<le> 0x03" by (rule word_and_le1)
  then have "unat (x AND 0x03) \<le> 3" by (simp add: word_le_nat_alt)
  then have "unat (1 + (x AND 0x03)) = 1 + unat (x AND 0x03)"
    by (simp add: unat_word_ariths)
  then show ?thesis by (simp add: word_less_nat_alt)
qed

text \<open>
  Claim C10.  No input makes \<open>Inverse\<close> leave through the \<^verbatim>\<open>blockSize == 0\<close> branch: the
  header size is at least 1, so a block size of 0 is already rejected by the test
  before it; and for an empty, non-nil input the read of \<^verbatim>\<open>src[0]\<close> panics, so the
  zero-length success \<open>(0, 0, nil)\<close> is never returned.
\<close>

theorem BWTBlockCodec_Inverse_empty_block_unreachable:
  "BWTBlockCodec_Inverse_exit bwtInverse src dst \<noteq> Empty_block \<and>
   BWTBlockCodec_Inverse_exit bwtInverse (Some []) (Some d) = Index_panic \<and>
   BWTBlockCodec_Inverse bwtInverse' (Some []) (Some d) = Inl Panic_index_out_of_range"
proof -
  have "BWTBlockCodec_Inverse_exit bwtInverse src dst \<noteq> Empty_block"
    unfolding BWTBlockCodec_Inverse_exit_def Let_def
    using headerSizeBytes_pos by (auto split: option.splits)
  moreover have "BWTBlockCodec_Inverse_exit bwtInverse (Some []) (Some d) = Index_panic"
    by (simp add: BWTBlockCodec_Inverse_exit_def)
  moreover have "BWTBlockCodec_Inverse bwtInverse' (Some []) (Some d) = Inl Panic_index_out_of_range"
    by (simp add: BWTBlockCodec_Inverse_def BWTBlockCodec_Inverse_exit_def)
  ultimately show ?thesis by simp
qed

theorem BWTBlockCodec_Inverse_empty_block_unreachable_witness:
  "BWTBlockCodec_Inverse_exit (\<lambda>p s d. Inr (0 :: uint, 0 :: uint) :: go_error + uint \<times> uint)
     (Some [0]) (Some []) \<noteq> Empty_block \<and>
   BWTBlockCodec_Inverse (\<lambda>p s d. Inr (0, 0)) (Some []) (Some []) = Inl Panic_index_out_of_range"
  using BWTBlockCodec_Inverse_empty_block_unreachable
          [of "\<lambda>p s d. Inr (0 :: uint, 0 :: uint) :: go_error + uint \<times> uint" "Some [0]" "Some []"
              "[]" "\<lambda>p s d. Inr (0, 0)"]
  by simp

section \<open>Proofs: ROLZCodec::forward\<close>

text \<open>
  As stated, C7 fails: the test for a shared array stands before the test of the size,
  so a block that is too large, in place, is declined and nothing is thrown.
\<close>

theorem ROLZCodec_forward_too_large_counterexample:
  "ROLZCodec_forward 64 (2 ^ 30) (\<lambda>s. array_id s \<noteq> None) (\<lambda>i out n. Inr True)
     \<lparr>array_id = Some 1, slice_length = 2 ^ 30 + 1, slice_index = 0\<rparr>
     \<lparr>array_id = Some 1, slice_length = 2 ^ 30 + 1, slice_index = 0\<rparr>
     (2 ^ 30 + 1) = Inr False"
  by (simp add: ROLZCodec_forward_def)

text \<open>
  Claim C7, amended.  \<open>forward\<close> returns true for \<open>count = 0\<close>, returns false for every
  \<open>count\<close> with \<open>0 < count < MIN_BLOCK_SIZE\<close>, and for \<open>count > MAX_BLOCK_SIZE\<close> (where
  \<open>MIN_BLOCK_SIZE \<le> MAX_BLOCK_SIZE\<close>) it throws an invalid-argument error, except when
  both slices are valid and share their array: then it returns false.
\<close>

theorem ROLZCodec_forward_size_checks:
  "ROLZCodec_forward MIN_BLOCK_SIZE MAX_BLOCK_SIZE isValid delegate_forward input output 0 = Inr True \<and>
   (0 < count \<and> count < MIN_BLOCK_SIZE \<longrightarrow>
      ROLZCodec_forward MIN_BLOCK_SIZE MAX_BLOCK_SIZE isValid delegate_forward input output count
        = Inr False) \<and>
   (MIN_BLOCK_SIZE \<le> MAX_BLOCK_SIZE \<and> 0 < MIN_BLOCK_SIZE \<and> MAX_BLOCK_SIZE < count \<longrightarrow>
      ROLZCodec_forward MIN_BLOCK_SIZE MAX_BLOCK_SIZE isValid delegate_forward input output count
        = (if \<not> isValid input then Inl Invalid_input_block
           else if \<not> isValid output then Inl Invalid_output_block
           else if array_id input = array_id output then Inr False
           else Inl (Block_too_large MAX_BLOCK_SIZE count)))"
  by (simp add: ROLZCodec_forward_def)

theorem ROLZCodec_forward_size_checks_witness:
  "ROLZCodec_forward 64 (2 ^ 30) (\<lambda>s. array_id s \<noteq> None) (\<lambda>i out n. Inr True)
     \<lparr>array_id = Some 1, slice_length = 100, slice_index = 0\<rparr>
     \<lparr>array_id = Some 2, slice_length = 100, slice_index = 0\<rparr> 0 = Inr True \<and>
   (0 :: int) < 10 \<and> (10 :: int) < 64 \<and>
   ROLZCodec_forward 64 (2 ^ 30) (\<lambda>s. array_id s \<noteq> None) (\<lambda>i out n. Inr True)
     \<lparr>array_id = Some 1, slice_length = 100, slice_index = 0\<rparr>
     \<lparr>array_id = Some 2, slice_length = 100, slice_index = 0\<rparr> 10 = Inr False \<and>
   (64 :: int) \<le> 2 ^ 30 \<and> (2 ^ 30 :: int) < 2 ^ 30 + 1 \<and>
   ROLZCodec_forward 64 (2 ^ 30) (\<lambda>s. array_id s \<noteq> None) (\<lambda>i out n. Inr True)
     \<lparr>array_id = Some 1, slice_length = 2 ^ 30 + 1, slice_index = 0\<rparr>
     \<lparr>array_id = Some 2, slice_length = 2 ^ 30 + 1, slice_index = 0\<rparr> (2 ^ 30 + 1)
     = Inl (Block_too_large (2 ^ 30) (2 ^ 30 + 1))"
proof -
  note t = ROLZCodec_forward_size_checks
             [of 64 "2 ^ 30" "\<lambda>s. array_id s \<noteq> None" "\<lambda>i out n. Inr True"]
  have a: "ROLZCodec_forward 64 (2 ^ 30) (\<lambda>s. array_id s \<noteq> None) (\<lambda>i out n. Inr True)
     \<lparr>array_id = Some 1, slice_length = 100, slice_index = 0\<rparr>
     \<lparr>array_id = Some 2, slice_length = 100, slice_index = 0\<rparr> 0 = Inr True"
    using t by blast
  have b: "ROLZCodec_forward 64 (2 ^ 30) (\<lambda>s. array_id s \<noteq> None) (\<lambda>i out n. Inr True)
     \<lparr>array_id = Some 1, slice_length = 100, slice_index = 0\<rparr>
     \<lparr>array_id = Some 2, slice_length = 100, slice_index = 0\<rparr> 10 = Inr False"
    using t[of _ _ 10] by simp
  have c: "ROLZCodec_forward 64 (2 ^ 30) (\<lambda>s. array_id s \<noteq> None) (\<lambda>i out n. Inr True)
     \<lparr>array_id = Some 1, slice_length = 2 ^ 30 + 1, slice_index = 0\<rparr>
     \<lparr>array_id = Some 2, slice_length = 2 ^ 30 + 1, slice_index = 0\<rparr> (2 ^ 30 + 1)
     = Inl (Block_too_large (2 ^ 30) (2 ^ 30 + 1))"
    using t[of "\<lparr>array_id = Some 1, slice_length = 2 ^ 30 + 1, slice_index = 0\<rparr>"
               "\<lparr>array_id = Some 2, slice_length = 2 ^ 30 + 1, slice_index = 0\<rparr>" "2 ^ 30 + 1"]
    by simp
  from a b c show ?thesis by simp
qed

section \<open>X86Codec: the matches and the decision to decline\<close>

subsection \<open>forwardX86 counts the rewritten offsets\<close>

lemma forwardX86_body_spec:
  assumes "forwardX86_body c arr idx srcIdx = Some (out, srcIdx', m)"
  shows "srcIdx' = x86_next c arr idx srcIdx \<and>
         m = (if x86_rewritable c arr idx srcIdx then 1 else 0) \<and> srcIdx < srcIdx'"
proof -
  from assms obtain b where b: "rd arr (idx + srcIdx) = Some b"
    unfolding forwardX86_body_def by (auto split: option.splits)
  define k where "k = (if b = X86_TWO_BYTE_PREFIX c then srcIdx + 1 else srcIdx)"
  have pf: "x86_prefixed c arr idx srcIdx \<longleftrightarrow> b = X86_TWO_BYTE_PREFIX c"
    using b by (auto simp: x86_prefixed_def)
  have kp: "x86_opcode_pos c arr idx srcIdx = k"
    by (simp add: x86_opcode_pos_def pf k_def)
  from assms b obtain opc where o: "rd arr (idx + k) = Some opc"
    unfolding forwardX86_body_def k_def by (auto simp: Let_def split: option.splits)
  define jump where "jump = (if b = X86_TWO_BYTE_PREFIX c
                             then opc AND X86_MASK_JCC c = X86_INSTRUCTION_JCC c
                             else opc AND X86_MASK_JUMP c = X86_INSTRUCTION_JUMP c)"
  have rj: "x86_relative_jump c arr idx srcIdx \<longleftrightarrow> jump"
    by (simp add: x86_relative_jump_def kp o pf jump_def)
  have sk: "srcIdx \<le> k" by (simp add: k_def)
  show ?thesis
  proof (cases jump)
    case False
    then have "\<not> x86_rewritable c arr idx srcIdx" by (simp add: x86_rewritable_def rj)
    moreover have "srcIdx' = k + 1 \<and> m = 0"
      using assms b o False unfolding forwardX86_body_def k_def jump_def
      by (auto simp: Let_def split: if_splits)
    ultimately show ?thesis using sk by (simp add: x86_next_def kp)
  next
    case True
    from assms b o True obtain high offset where
      h: "rd arr (idx + (k + 4)) = Some high"
      and f: "LittleEndian_readInt32 arr (idx + (k + 1)) = Some offset"
      unfolding forwardX86_body_def k_def jump_def
      by (auto simp: Let_def split: if_splits option.splits)
    have rw: "x86_rewritable c arr idx srcIdx \<longleftrightarrow>
                (high = 0 \<or> high = 0xFF) \<and> offset \<noteq> 0xFF000000"
      by (simp add: x86_rewritable_def rj True kp h f)
    have "srcIdx' = k + (if (high = 0 \<or> high = 0xFF) \<and> offset \<noteq> 0xFF000000 then 5 else 1) \<and>
          m = (if (high = 0 \<or> high = 0xFF) \<and> offset \<noteq> 0xFF000000 then 1 else 0)"
      using assms b o True h f unfolding forwardX86_body_def k_def jump_def
      by (auto simp: Let_def split: if_splits)
    then show ?thesis using sk by (simp add: x86_next_def kp rw)
  qed
qed

lemma forwardX86_loop_count:
  "forwardX86_loop c arr idx codeEnd srcIdx dst m = Some (srcIdx', dst', m') \<Longrightarrow>
   m' = m + x86_rewritten c arr idx codeEnd srcIdx"
proof (induction "nat (codeEnd - srcIdx)" arbitrary: srcIdx dst m rule: less_induct)
  case less
  note e = forwardX86_loop.simps[of c arr idx codeEnd srcIdx dst m]
  note s = x86_rewritten.simps[of c arr idx codeEnd srcIdx]
  show ?case
  proof (cases "srcIdx < codeEnd")
    case False
    then show ?thesis using less.prems unfolding e s by simp
  next
    case True
    from less.prems True obtain out i2 dm where
      bd: "forwardX86_body c arr idx srcIdx = Some (out, i2, dm)"
      and rec: "forwardX86_loop c arr idx codeEnd i2 (dst @ out) (m + dm) = Some (srcIdx', dst', m')"
      unfolding e by (auto split: option.splits if_splits)
    from forwardX86_body_spec[OF bd]
    have n: "i2 = x86_next c arr idx srcIdx"
      and d: "dm = (if x86_rewritable c arr idx srcIdx then 1 else 0)" and lt: "srcIdx < i2"
      by simp_all
    have "nat (codeEnd - i2) < nat (codeEnd - srcIdx)" using True lt by simp
    from less.hyps[OF this rec] have "m' = m + dm + x86_rewritten c arr idx codeEnd i2" .
    then show ?thesis unfolding s using True n d by simp
  qed
qed

lemma LittleEndian_readInt32_defined:
  "0 \<le> i \<Longrightarrow> i + 4 \<le> int (length xs) \<Longrightarrow> \<exists>w. LittleEndian_readInt32 xs i = Some w"
  by (simp add: LittleEndian_readInt32_def rd_def)

lemma forwardX86_body_defined:
  assumes "0 \<le> idx + srcIdx" and "idx + srcIdx + 6 \<le> int (length arr)"
  shows "\<exists>r. forwardX86_body c arr idx srcIdx = Some r"
proof -
  have r: "\<And>j. 0 \<le> j \<Longrightarrow> j \<le> 5 \<Longrightarrow> \<exists>v. rd arr (idx + srcIdx + j) = Some v"
    using assms by (simp add: rd_def)
  from r[of 0] obtain b where b: "rd arr (idx + srcIdx) = Some b" by auto
  define k where "k = (if b = X86_TWO_BYTE_PREFIX c then srcIdx + 1 else srcIdx)"
  have kr: "k = srcIdx \<or> k = srcIdx + 1" by (simp add: k_def)
  from kr r[of 0] r[of 1] obtain opc where o: "rd arr (idx + k) = Some opc"
    by (auto simp: add.assoc)
  from kr r[of 4] r[of 5] obtain high where h: "rd arr (idx + (k + 4)) = Some high"
    by (auto simp: algebra_simps)
  have "0 \<le> idx + (k + 1)" "idx + (k + 1) + 4 \<le> int (length arr)"
    using kr assms by auto
  from LittleEndian_readInt32_defined[OF this]
  obtain offset where f: "LittleEndian_readInt32 arr (idx + (k + 1)) = Some offset" by auto
  show ?thesis
    unfolding forwardX86_body_def using b o h f
    by (simp add: Let_def k_def[symmetric])
qed

lemma forwardX86_loop_defined:
  "0 \<le> idx + srcIdx \<Longrightarrow> idx + codeEnd + 5 \<le> int (length arr) \<Longrightarrow>
   \<exists>r. forwardX86_loop c arr idx codeEnd srcIdx dst m = Some r"
proof (induction "nat (codeEnd - srcIdx)" arbitrary: srcIdx dst m rule: less_induct)
  case less
  note e = forwardX86_loop.simps[of c arr idx codeEnd srcIdx dst m]
  show ?case
  proof (cases "srcIdx < codeEnd")
    case False
    then show ?thesis unfolding e by simp
  next
    case True
    have "\<exists>r. forwardX86_body c arr idx srcIdx = Some r"
      using less.prems True by (intro forwardX86_body_defined) simp_all
    then obtain out i2 dm where bd: "forwardX86_body c arr idx srcIdx = Some (out, i2, dm)"
      by (metis prod_cases3)
    from forwardX86_body_spec[OF bd] have lt: "srcIdx < i2" by simp
    have "nat (codeEnd - i2) < nat (codeEnd - srcIdx)" using True lt by simp
    moreover have "0 \<le> idx + i2" using less.prems(1) lt by simp
    ultimately have "\<exists>r. forwardX86_loop c arr idx codeEnd i2 (dst @ out) (m + dm) = Some r"
      using less.prems(2) by (intro less.hyps) simp_all
    then show ?thesis unfolding e using True bd lt by simp
  qed
qed

subsection \<open>forwardARM counts the true matches\<close>

lemma forwardARM_body_spec:
  assumes "forwardARM_body c arr idx srcIdx fpRun = Some p"
  shows "(case arm_kind_at c arr idx srcIdx of
            None \<Rightarrow> False
          | Some Arm_other \<Rightarrow> (\<exists>out. p = Arm_next out (srcIdx + 4) 0 fpRun)
          | Some Arm_false_positive \<Rightarrow>
              (if fpRun + 1 = 4 then p = Arm_break
               else \<exists>out. p = Arm_next out (srcIdx + 4) 0 (fpRun + 1))
          | Some Arm_true_match \<Rightarrow> (\<exists>out. p = Arm_next out (srcIdx + 4) 1 0))"
proof -
  from assms obtain instr raw where
    i: "LittleEndian_readInt32 arr (idx + srcIdx) = Some instr"
    and r: "rd_range arr (idx + srcIdx) 4 = Some raw"
    unfolding forwardARM_body_def by (auto split: option.splits)
  show ?thesis
    using assms unfolding forwardARM_body_def arm_kind_at_def arm_branch_target_def i r
    by (auto simp: Let_def split: if_splits)
qed

lemma forwardARM_loop_count:
  "forwardARM_loop c arr idx codeEnd srcIdx dst m fpRun = Some (srcIdx', dst', m') \<Longrightarrow>
   m' = m + arm_true_matches c arr idx codeEnd srcIdx fpRun"
proof (induction "nat (codeEnd - srcIdx)" arbitrary: srcIdx dst m fpRun rule: less_induct)
  case less
  note e = forwardARM_loop.simps[of c arr idx codeEnd srcIdx dst m fpRun]
  note s = arm_true_matches.simps[of c arr idx codeEnd srcIdx fpRun]
  show ?case
  proof (cases "srcIdx < codeEnd")
    case False
    then show ?thesis using less.prems unfolding e s by simp
  next
    case True
    from less.prems True obtain p where bd: "forwardARM_body c arr idx srcIdx fpRun = Some p"
      unfolding e by (auto split: option.splits)
    note sp = forwardARM_body_spec[OF bd]
    have m4: "nat (codeEnd - (srcIdx + 4)) < nat (codeEnd - srcIdx)" using True by simp
    note ih = less.hyps[OF m4]
    from sp obtain kd where kd: "arm_kind_at c arr idx srcIdx = Some kd"
      by (auto split: option.splits)
    show ?thesis
    proof (cases kd)
      case Arm_other
      with sp kd obtain out where p: "p = Arm_next out (srcIdx + 4) 0 fpRun" by auto
      then have "forwardARM_loop c arr idx codeEnd (srcIdx + 4) (dst @ out) (m + 0) fpRun
                   = Some (srcIdx', dst', m')"
        using less.prems True bd unfolding e by simp
      from ih[OF this] show ?thesis unfolding s using True kd Arm_other by simp
    next
      case Arm_false_positive
      show ?thesis
      proof (cases "fpRun + 1 = 4")
        case True
        with sp kd Arm_false_positive have "p = Arm_break" by simp
        then have "m' = m" using less.prems \<open>srcIdx < codeEnd\<close> bd unfolding e by simp
        then show ?thesis unfolding s using \<open>srcIdx < codeEnd\<close> kd Arm_false_positive True by simp
      next
        case False
        with sp kd Arm_false_positive obtain out where
          p: "p = Arm_next out (srcIdx + 4) 0 (fpRun + 1)" by auto
        then have "forwardARM_loop c arr idx codeEnd (srcIdx + 4) (dst @ out) (m + 0) (fpRun + 1)
                     = Some (srcIdx', dst', m')"
          using less.prems True bd unfolding e by simp
        from ih[OF this] show ?thesis unfolding s using True kd Arm_false_positive False by simp
      qed
    next
      case Arm_true_match
      with sp kd obtain out where p: "p = Arm_next out (srcIdx + 4) 1 0" by auto
      then have "forwardARM_loop c arr idx codeEnd (srcIdx + 4) (dst @ out) (m + 1) 0
                   = Some (srcIdx', dst', m')"
        using less.prems True bd unfolding e by simp
      from ih[OF this] show ?thesis unfolding s using True kd Arm_true_match by simp
    qed
  qed
qed

lemma forwardARM_body_defined:
  assumes "0 \<le> idx + srcIdx" and "idx + srcIdx + 4 \<le> int (length arr)"
  shows "\<exists>p. forwardARM_body c arr idx srcIdx fpRun = Some p"
proof -
  from LittleEndian_readInt32_defined[OF assms]
  obtain instr where i: "LittleEndian_readInt32 arr (idx + srcIdx) = Some instr" by auto
  have r: "rd_range arr (idx + srcIdx) 4 = Some (take 4 (drop (nat (idx + srcIdx)) arr))"
    using assms by (simp add: rd_range_def)
  show ?thesis
    unfolding forwardARM_body_def i r
    by (simp add: Let_def split: prod.splits)
qed

lemma forwardARM_loop_defined:
  "0 \<le> idx + srcIdx \<Longrightarrow> idx + codeEnd + 3 \<le> int (length arr) \<Longrightarrow>
   \<exists>r. forwardARM_loop c arr idx codeEnd srcIdx dst m fpRun = Some r"
proof (induction "nat (codeEnd - srcIdx)" arbitrary: srcIdx dst m fpRun rule: less_induct)
  case less
  note e = forwardARM_loop.simps[of c arr idx codeEnd srcIdx dst m fpRun]
  show ?case
  proof (cases "srcIdx < codeEnd")
    case False
    then show ?thesis unfolding e by simp
  next
    case True
    have "\<exists>p. forwardARM_body c arr idx srcIdx fpRun = Some p"
      using less.prems True by (intro forwardARM_body_defined) simp_all
    then obtain p where bd: "forwardARM_body c arr idx srcIdx fpRun = Some p" by blast
    have m4: "nat (codeEnd - (srcIdx + 4)) < nat (codeEnd - srcIdx)" using True by simp
    have n4: "0 \<le> idx + (srcIdx + 4)" using less.prems(1) by simp
    note ih = less.hyps[OF m4 n4 less.prems(2)]
    show ?thesis
    proof (cases p)
      case Arm_break
      then show ?thesis unfolding e using True bd by simp
    next
      case (Arm_next out i2 dm fp)
      with forwardARM_body_spec[OF bd] have "i2 = srcIdx + 4"
        by (auto split: option.splits arm_kind.splits if_splits)
      then show ?thesis unfolding e using True bd Arm_next ih[of "dst @ out" "m + dm" fp] by simp
    qed
  qed
qed

subsection \<open>Fewer than 16 matches\<close>

text \<open>
  Claim C9.  Whenever \<open>forwardX86\<close> returns, it returns true exactly when at least 16
  offsets of relative calls and jumps were rewritten in the code section, and whenever
  \<open>forwardARM\<close> returns, it returns true exactly when the code section held at least 16
  true matches (branches with a target other than 0; the false positives do not
  count).  And they do return: when the code section and the five bytes after it lie
  in the array, fewer than 16 make \<open>forwardX86\<close>, and \<open>forwardARM\<close>, return false.
\<close>

theorem EXE_forward_declines_below_16_matches:
  "(forwardX86 c arr idx count codeStart codeEnd = Some (ok, out) \<longrightarrow>
      ok = (16 \<le> x86_rewritten c arr idx codeEnd codeStart)) \<and>
   (forwardARM c arr idx count codeStart codeEnd = Some (ok', out') \<longrightarrow>
      ok' = (16 \<le> arm_true_matches c arr idx codeEnd codeStart 0)) \<and>
   (0 \<le> idx \<and> 0 \<le> idx + codeStart \<and> idx + codeStart \<le> int (length arr) \<and>
    idx + codeEnd + 5 \<le> int (length arr) \<longrightarrow>
      (x86_rewritten c arr idx codeEnd codeStart < 16 \<longrightarrow>
         forwardX86 c arr idx count codeStart codeEnd = Some (False, [])) \<and>
      (arm_true_matches c arr idx codeEnd codeStart 0 < 16 \<longrightarrow>
         forwardARM c arr idx count codeStart codeEnd = Some (False, [])))"
proof (intro conjI impI)
  assume "forwardX86 c arr idx count codeStart codeEnd = Some (ok, out)"
  then obtain hd0 i d m where
    l: "forwardX86_loop c arr idx codeEnd codeStart hd0 0 = Some (i, d, m)"
    and o: "ok = (\<not> m < 16)"
    unfolding forwardX86_def by (auto split: option.splits if_splits)
  from forwardX86_loop_count[OF l] o
  show "ok = (16 \<le> x86_rewritten c arr idx codeEnd codeStart)" by auto
next
  assume "forwardARM c arr idx count codeStart codeEnd = Some (ok', out')"
  then obtain hd0 i d m where
    l: "forwardARM_loop c arr idx codeEnd codeStart hd0 0 0 = Some (i, d, m)"
    and o: "ok' = (\<not> m < 16)"
    unfolding forwardARM_def by (auto split: option.splits if_splits)
  from forwardARM_loop_count[OF l] o
  show "ok' = (16 \<le> arm_true_matches c arr idx codeEnd codeStart 0)" by auto
next
  assume b: "0 \<le> idx \<and> 0 \<le> idx + codeStart \<and> idx + codeStart \<le> int (length arr) \<and>
             idx + codeEnd + 5 \<le> int (length arr)"
    and n: "x86_rewritten c arr idx codeEnd codeStart < 16"
  have "\<exists>hd0. (if codeStart > 0 then rd_range arr idx codeStart else Some []) = Some hd0"
    using b by (simp add: rd_range_def)
  then obtain hd0 where
    h: "(if codeStart > 0 then rd_range arr idx codeStart else Some []) = Some hd0" by blast
  from forwardX86_loop_defined[of idx codeStart codeEnd arr c hd0 0] b
  obtain i d m where l: "forwardX86_loop c arr idx codeEnd codeStart hd0 0 = Some (i, d, m)"
    by (metis prod_cases3)
  from forwardX86_loop_count[OF l] n have "m < 16" by simp
  then show "forwardX86 c arr idx count codeStart codeEnd = Some (False, [])"
    unfolding forwardX86_def h using l by simp
next
  assume b: "0 \<le> idx \<and> 0 \<le> idx + codeStart \<and> idx + codeStart \<le> int (length arr) \<and>
             idx + codeEnd + 5 \<le> int (length arr)"
    and n: "arm_true_matches c arr idx codeEnd codeStart 0 < 16"
  have "\<exists>hd0. (if codeStart > 0 then rd_range arr idx codeStart else Some []) = Some hd0"
    using b by (simp add: rd_range_def)
  then obtain hd0 where
    h: "(if codeStart > 0 then rd_range arr idx codeStart else Some []) = Some hd0" by blast
  have "idx + codeEnd + 3 \<le> int (length arr)" using b by simp
  from forwardARM_loop_defined[OF _ this, of codeStart c hd0 0 0] b
  obtain i d m where l: "forwardARM_loop c arr idx codeEnd codeStart hd0 0 0 = Some (i, d, m)"
    by (metis prod_cases3)
  from forwardARM_loop_count[OF l] n have "m < 16" by simp
  then show "forwardARM c arr idx count codeStart codeEnd = Some (False, [])"
    unfolding forwardARM_def h using l by simp
qed

lemma x86_sample_forward:
  "forwardX86 kanzi_x86_consts x86_sample 0 88 0 80 = Some (True, x86_sample_encoded)"
  by (simp add: x86_sample_def x86_sample_encoded_def forwardX86_def forwardX86_loop.simps
        forwardX86_body_def rd_def rd_range_def LittleEndian_readInt32_def
        LittleEndian_writeInt32_def BigEndian_writeInt32_def le32_def kanzi_x86_consts_def
        Let_def)

theorem EXE_forward_declines_below_16_matches_witness:
  "forwardX86 kanzi_x86_consts x86_sample 0 88 0 80 = Some (True, x86_sample_encoded) \<and>
   16 \<le> x86_rewritten kanzi_x86_consts x86_sample 0 80 0 \<and>
   x86_rewritable kanzi_x86_consts x86_short_sample 0 0 \<and>
   \<not> x86_rewritable kanzi_x86_consts x86_short_sample 0 5 \<and>
   x86_rewritten kanzi_x86_consts x86_short_sample 0 10 0 = 1 \<and>
   forwardX86 kanzi_x86_consts x86_short_sample 0 20 0 10 = Some (False, []) \<and>
   arm_kind_at kanzi_x86_consts arm_sample 0 0 = Some Arm_false_positive \<and>
   arm_kind_at kanzi_x86_consts arm_sample 0 4 = Some Arm_true_match \<and>
   arm_true_matches kanzi_x86_consts arm_sample 0 16 0 0 = 1 \<and>
   forwardARM kanzi_x86_consts arm_sample 0 24 0 16 = Some (False, [])"
proof -
  note t1 = EXE_forward_declines_below_16_matches
              [of kanzi_x86_consts x86_sample 0 88 0 80 True x86_sample_encoded]
  have a: "16 \<le> x86_rewritten kanzi_x86_consts x86_sample 0 80 0"
    using t1 x86_sample_forward by simp
  have r0: "x86_rewritable kanzi_x86_consts x86_short_sample 0 0"
    and r5: "\<not> x86_rewritable kanzi_x86_consts x86_short_sample 0 5"
    by (simp_all add: x86_rewritable_def x86_relative_jump_def x86_opcode_pos_def
          x86_prefixed_def x86_short_sample_def rd_def LittleEndian_readInt32_def le32_def
          kanzi_x86_consts_def Let_def)
  have n: "x86_rewritten kanzi_x86_consts x86_short_sample 0 10 0 = 1"
    by (simp add: x86_rewritten.simps x86_next_def x86_rewritable_def x86_relative_jump_def
          x86_opcode_pos_def x86_prefixed_def x86_short_sample_def rd_def
          LittleEndian_readInt32_def le32_def kanzi_x86_consts_def Let_def)
  have k0: "arm_kind_at kanzi_x86_consts arm_sample 0 0 = Some Arm_false_positive"
    and k4: "arm_kind_at kanzi_x86_consts arm_sample 0 4 = Some Arm_true_match"
    by (simp_all add: arm_kind_at_def arm_branch_target_def arm_sample_def rd_def
          LittleEndian_readInt32_def le32_def kanzi_x86_consts_def Let_def)
  have m: "arm_true_matches kanzi_x86_consts arm_sample 0 16 0 0 = 1"
    by (simp add: arm_true_matches.simps arm_kind_at_def arm_branch_target_def arm_sample_def
          rd_def LittleEndian_readInt32_def le32_def kanzi_x86_consts_def Let_def)
  have b1: "(0 :: int) \<le> 0 \<and> (0 :: int) \<le> 0 + 0 \<and> 0 + 0 \<le> int (length x86_short_sample) \<and>
            0 + 10 + 5 \<le> int (length x86_short_sample)"
    by (simp add: x86_short_sample_def)
  have b2: "(0 :: int) \<le> 0 \<and> (0 :: int) \<le> 0 + 0 \<and> 0 + 0 \<le> int (length arm_sample) \<and>
            0 + 16 + 5 \<le> int (length arm_sample)"
    by (simp add: arm_sample_def)
  have x: "forwardX86 kanzi_x86_consts x86_short_sample 0 20 0 10 = Some (False, [])"
    using EXE_forward_declines_below_16_matches
            [of kanzi_x86_consts x86_short_sample 0 20 0 10] b1 n by simp
  have y: "forwardARM kanzi_x86_consts arm_sample 0 24 0 16 = Some (False, [])"
    using EXE_forward_declines_below_16_matches
            [of kanzi_x86_consts arm_sample 0 24 0 16] b2 m by simp
  from x86_sample_forward a r0 r5 n x k0 k4 m y show ?thesis by simp
qed

subsection \<open>A code section that starts before the block\<close>


section \<open>Proofs: ROLZCodec1::findMatch\<close>

lemma posChecks_pos: "0 < posChecks c"
  by (simp add: posChecks_def)

lemma maskChecks_range: "0 \<le> x AND maskChecks c \<and> x AND maskChecks c < posChecks c"
proof -
  have m: "0 \<le> maskChecks c" using posChecks_pos[of c] by (simp add: maskChecks_def)
  then have "x AND maskChecks c \<le> maskChecks c" by simp
  then show ?thesis using m by (simp add: maskChecks_def)
qed

subsection \<open>The two extension loops compute the match length\<close>

lemma rd_range_rd:
  "rd_range xs i m = Some ys \<Longrightarrow> 0 \<le> j \<Longrightarrow> j < m \<Longrightarrow> rd xs (i + j) = Some (ys ! nat j)"
  by (auto simp: rd_range_def rd_def nat_add_distrib split: if_splits)

lemma memcmp_equal:
  assumes "rd_range buf (ref + n) 4 = Some a" and "rd_range buf (pos + n) 4 = Some a"
    and "n \<le> k" and "k < n + 4"
  shows "bytes_equal buf ref pos k"
proof -
  have j: "0 \<le> k - n" "k - n < 4" using assms(3,4) by simp_all
  from rd_range_rd[OF assms(1) j] have "rd buf (ref + k) = Some (a ! nat (k - n))"
    by (simp add: algebra_simps)
  moreover from rd_range_rd[OF assms(2) j] have "rd buf (pos + k) = Some (a ! nat (k - n))"
    by (simp add: algebra_simps)
  ultimately show ?thesis by (simp add: bytes_equal_def)
qed

lemma extend4_spec:
  "extend4 buf ref pos maxMatch n = Some n4 \<Longrightarrow>
   (\<forall>k. 0 \<le> k \<and> k < n \<longrightarrow> bytes_equal buf ref pos k) \<Longrightarrow>
   n \<le> n4 \<and> (\<forall>k. 0 \<le> k \<and> k < n4 \<longrightarrow> bytes_equal buf ref pos k) \<and> (n4 = n \<or> n4 < maxMatch)"
proof (induction "nat (maxMatch - n)" arbitrary: n rule: less_induct)
  case less
  note e = extend4.simps[of buf ref pos maxMatch n]
  show ?case
  proof (cases "n + 4 < maxMatch")
    case False
    then show ?thesis using less.prems unfolding e by simp
  next
    case True
    from less.prems(1) True obtain a b where
      ra: "rd_range buf (ref + n) 4 = Some a" and rb: "rd_range buf (pos + n) 4 = Some b"
      unfolding e by (auto split: option.splits)
    show ?thesis
    proof (cases "a = b")
      case False
      then show ?thesis using less.prems True ra rb unfolding e by simp
    next
      case ab: True
      have rec: "extend4 buf ref pos maxMatch (n + 4) = Some n4"
        using less.prems(1) True ra rb ab unfolding e by simp
      have p: "\<forall>k. 0 \<le> k \<and> k < n + 4 \<longrightarrow> bytes_equal buf ref pos k"
      proof (intro allI impI)
        fix k assume k: "0 \<le> k \<and> k < n + 4"
        show "bytes_equal buf ref pos k"
        proof (cases "k < n")
          case True
          then show ?thesis using less.prems(2) k by simp
        next
          case False
          then show ?thesis using memcmp_equal[OF ra rb[folded ab], of k] k by simp
        qed
      qed
      have m: "nat (maxMatch - (n + 4)) < nat (maxMatch - n)" using True by simp
      from less.hyps[OF m rec p] True show ?thesis by auto
    qed
  qed
qed

lemma extend1_spec:
  "extend1 buf ref pos maxMatch n = Some r \<Longrightarrow>
   (\<forall>k. 0 \<le> k \<and> k < n \<longrightarrow> bytes_equal buf ref pos k) \<Longrightarrow>
   n \<le> r \<and> (\<forall>k. 0 \<le> k \<and> k < r \<longrightarrow> bytes_equal buf ref pos k) \<and>
   (r < maxMatch \<longrightarrow> \<not> bytes_equal buf ref pos r) \<and> (r = n \<or> r \<le> maxMatch)"
proof (induction "nat (maxMatch - n)" arbitrary: n rule: less_induct)
  case less
  note e = extend1.simps[of buf ref pos maxMatch n]
  show ?case
  proof (cases "n < maxMatch")
    case False
    then show ?thesis using less.prems unfolding e by simp
  next
    case True
    from less.prems(1) True obtain a b where
      ra: "rd buf (ref + n) = Some a" and rb: "rd buf (pos + n) = Some b"
      unfolding e by (auto split: option.splits)
    show ?thesis
    proof (cases "a = b")
      case False
      then have "r = n" using less.prems(1) True ra rb unfolding e by simp
      moreover have "\<not> bytes_equal buf ref pos n" using ra rb False by (simp add: bytes_equal_def)
      ultimately show ?thesis using less.prems(2) by simp
    next
      case ab: True
      have rec: "extend1 buf ref pos maxMatch (n + 1) = Some r"
        using less.prems(1) True ra rb ab unfolding e by simp
      have en: "bytes_equal buf ref pos n" using ra rb ab by (simp add: bytes_equal_def)
      have p: "\<forall>k. 0 \<le> k \<and> k < n + 1 \<longrightarrow> bytes_equal buf ref pos k"
      proof (intro allI impI)
        fix k assume k: "0 \<le> k \<and> k < n + 1"
        show "bytes_equal buf ref pos k"
        proof (cases "k = n")
          case True
          then show ?thesis using en by simp
        next
          case False
          then show ?thesis using less.prems(2) k by simp
        qed
      qed
      have m: "nat (maxMatch - (n + 1)) < nat (maxMatch - n)" using True by simp
      from less.hyps[OF m rec p] True show ?thesis by auto
    qed
  qed
qed

lemma takeWhile_upt_length:
  assumes "r \<le> m" and "\<forall>k<r. Q k" and "r < m \<longrightarrow> \<not> Q r"
  shows "length (takeWhile Q [0 ..< m]) = r"
proof -
  have "takeWhile Q [0 ..< m] = take r [0 ..< m]"
    by (rule takeWhile_eq_take_P_nth) (use assms in auto)
  then show ?thesis using assms(1) by simp
qed

lemma match_length_bounds:
  "0 \<le> match_length buf ref pos maxMatch \<and> match_length buf ref pos maxMatch \<le> max 0 maxMatch"
proof -
  have "length (takeWhile (\<lambda>k. bytes_equal buf ref pos (int k)) [0 ..< nat maxMatch])
          \<le> length [0 ..< nat maxMatch]"
    by (rule length_takeWhile_le)
  then show ?thesis by (auto simp: match_length_def)
qed

lemma match_length_reject:
  assumes "\<not> bytes_equal buf ref pos b" and "0 \<le> b"
  shows "match_length buf ref pos maxMatch \<le> b"
proof (rule ccontr)
  let ?Q = "\<lambda>k. bytes_equal buf ref pos (int k)"
  assume "\<not> match_length buf ref pos maxMatch \<le> b"
  then have l: "nat b < length (takeWhile ?Q [0 ..< nat maxMatch])"
    using assms(2) by (simp add: match_length_def)
  have "takeWhile ?Q [0 ..< nat maxMatch] ! nat b \<in> set (takeWhile ?Q [0 ..< nat maxMatch])"
    using l by (rule nth_mem)
  then have "?Q (takeWhile ?Q [0 ..< nat maxMatch] ! nat b)" by (rule set_takeWhileD[THEN conjunct2])
  then have "?Q ([0 ..< nat maxMatch] ! nat b)" using takeWhile_nth[OF l] by simp
  moreover have "nat b < length [0 ..< nat maxMatch]"
    using l length_takeWhile_le[of ?Q "[0 ..< nat maxMatch]"] by linarith
  ultimately show False using assms by simp
qed

lemma match_length_computed:
  assumes "extend4 buf ref pos maxMatch 0 = Some n4"
    and "extend1 buf ref pos maxMatch n4 = Some n"
  shows "n = match_length buf ref pos maxMatch"
proof -
  have "\<forall>k. 0 \<le> k \<and> k < (0 :: int) \<longrightarrow> bytes_equal buf ref pos k" by auto
  from extend4_spec[OF assms(1) this]
  have 4: "0 \<le> n4" "\<forall>k. 0 \<le> k \<and> k < n4 \<longrightarrow> bytes_equal buf ref pos k"
    "n4 = 0 \<or> n4 < maxMatch" by simp_all
  from extend1_spec[OF assms(2) 4(2)]
  have 1: "n4 \<le> n" "\<forall>k. 0 \<le> k \<and> k < n \<longrightarrow> bytes_equal buf ref pos k"
    "n < maxMatch \<longrightarrow> \<not> bytes_equal buf ref pos n" "n = n4 \<or> n \<le> maxMatch" by simp_all
  have n0: "0 \<le> n" using 4(1) 1(1) by simp
  have le: "n \<le> max 0 maxMatch" using 4(3) 1(4) by auto
  have "length (takeWhile (\<lambda>k. bytes_equal buf ref pos (int k)) [0 ..< nat maxMatch]) = nat n"
  proof (rule takeWhile_upt_length)
    show "nat n \<le> nat maxMatch" using le n0 by auto
    show "\<forall>k<nat n. bytes_equal buf ref pos (int k)" using 1(2) by auto
    show "nat n < nat maxMatch \<longrightarrow> \<not> bytes_equal buf ref pos (int (nat n))"
      using 1(3) n0 by auto
  qed
  then show ?thesis using n0 by (simp add: match_length_def)
qed

subsection \<open>The search keeps the best match\<close>

lemma best_of_unique:
  assumes "best_of cand len D bl bi" and "best_of cand len D bl' bi'"
  shows "bl = bl' \<and> bi = bi'"
proof -
  have l: "bl = bl'" using assms unfolding best_of_def by (metis order.strict_iff_not order_antisym)
  have "bi = bi'"
  proof (cases "bl = 0")
    case True
    then show ?thesis using assms l unfolding best_of_def by auto
  next
    case False
    then have 1: "cand bi" "len bi = bl" "\<forall>d. cand d \<and> d < bi \<longrightarrow> len d < bl"
      and 2: "cand bi'" "len bi' = bl" "\<forall>d. cand d \<and> d < bi' \<longrightarrow> len d < bl"
      using assms l unfolding best_of_def by auto
    have "\<not> bi < bi'" using 1(1,2) 2(3) by auto
    moreover have "\<not> bi' < bi" using 2(1,2) 1(3) by auto
    ultimately show ?thesis by simp
  qed
  with l show ?thesis by simp
qed

lemma best_of_skip:
  assumes "best_of cand len D bl bi" and "\<not> cand D \<or> len D \<le> bl"
  shows "best_of cand len (D + 1) bl bi"
proof -
  have "\<forall>d. cand d \<and> d < D + 1 \<longrightarrow> len d \<le> bl"
  proof (intro allI impI)
    fix d assume d: "cand d \<and> d < D + 1"
    show "len d \<le> bl"
    proof (cases "d = D")
      case True
      then show ?thesis using d assms(2) by auto
    next
      case False
      then show ?thesis using d assms(1) unfolding best_of_def by auto
    qed
  qed
  then show ?thesis using assms(1) unfolding best_of_def by auto
qed

lemma best_of_new:
  assumes "best_of cand len D bl bi" and "cand D" and "bl < len D"
  shows "best_of cand len (D + 1) (len D) D"
proof -
  have b0: "0 \<le> bl" using assms(1) unfolding best_of_def by auto
  have a: "\<forall>d. cand d \<and> d < D \<longrightarrow> len d \<le> bl" using assms(1) unfolding best_of_def by auto
  have "\<forall>d. cand d \<and> d < D + 1 \<longrightarrow> len d \<le> len D"
  proof (intro allI impI)
    fix d assume d: "cand d \<and> d < D + 1"
    show "len d \<le> len D"
    proof (cases "d = D")
      case True then show ?thesis by simp
    next
      case False
      then have "len d \<le> bl" using d a by auto
      then show ?thesis using assms(3) by simp
    qed
  qed
  moreover have "\<forall>d. cand d \<and> d < D \<longrightarrow> len d < len D" using a assms(3) by fastforce
  ultimately show ?thesis using assms(2,3) b0 unfolding best_of_def by auto
qed

lemma best_of_all:
  assumes "best_of cand len D bl bi" and "D \<le> D'" and "\<forall>d. cand d \<longrightarrow> len d \<le> bl"
  shows "best_of cand len D' bl bi"
  using assms unfolding best_of_def by auto

lemma findMatch_loop_spec:
  assumes "findMatch_loop c st buf pos maxMatch key hash32 counter i bestLen bestIdx = Some (bl, bi)"
    and "i \<le> counter" and "counter - posChecks c \<le> i"
    and "best_of (candidate c st key counter hash32)
           (candidate_length c st buf pos maxMatch key counter) (counter - i) bestLen bestIdx"
    and "bestLen < maxMatch \<or> bestLen = 0"
  shows "best_of (candidate c st key counter hash32)
           (candidate_length c st buf pos maxMatch key counter) (posChecks c) bl bi"
  using assms
proof (induction "nat (i - (counter - posChecks c))" arbitrary: i bestLen bestIdx rule: less_induct)
  case less
  let ?cand = "candidate c st key counter hash32"
  let ?len = "candidate_length c st buf pos maxMatch key counter"
  let ?d = "counter - i"
  note e = findMatch_loop.simps[of c st buf pos maxMatch key hash32 counter i bestLen bestIdx]
  note bo = less.prems(4)
  have b0: "0 \<le> bestLen" using bo unfolding best_of_def by auto
  show ?case
  proof (cases "i > counter - posChecks c")
    case False
    then have "counter - i = posChecks c" using less.prems(3) by simp
    moreover have "bl = bestLen" "bi = bestIdx" using less.prems(1) False unfolding e by simp_all
    ultimately show ?thesis using bo by simp
  next
    case True
    have m: "nat (i - 1 - (counter - posChecks c)) < nat (i - (counter - posChecks c))"
      using True by simp
    have i1: "i - 1 \<le> counter" "counter - posChecks c \<le> i - 1"
      using less.prems(2) True by simp_all
    have d1: "counter - (i - 1) = ?d + 1" by simp
    have dr: "0 \<le> ?d" "?d < posChecks c" using less.prems(2) True by simp_all
    define ref0 where "ref0 = rolz_matches st (slot c key (i AND maskChecks c))"
    define ref where "ref = sint (ref0 AND NOT (HASH_MASK c))"
    have ent: "ring_entry c st key counter ?d = ref0" by (simp add: ring_entry_def ref0_def)
    have cd: "?cand ?d \<longleftrightarrow> ref0 AND HASH_MASK c = hash32"
      using dr by (simp add: candidate_def ent)
    have ln: "?len ?d = match_length buf ref pos maxMatch"
      by (simp add: candidate_length_def ent ref_def)
    \<comment> \<open>the pass goes on with the same best match\<close>
    have skip: "best_of ?cand ?len (posChecks c) bl bi"
      if rec: "findMatch_loop c st buf pos maxMatch key hash32 counter (i - 1) bestLen bestIdx
                 = Some (bl, bi)"
        and no: "\<not> ?cand ?d \<or> ?len ?d \<le> bestLen"
    proof -
      have "best_of ?cand ?len (counter - (i - 1)) bestLen bestIdx"
        unfolding d1 using bo no by (rule best_of_skip)
      from less.hyps[OF m rec i1 this less.prems(5)] show ?thesis .
    qed
    show ?thesis
    proof (cases "ref0 AND HASH_MASK c = hash32")
      case False
      then have "findMatch_loop c st buf pos maxMatch key hash32 counter (i - 1) bestLen bestIdx
                   = Some (bl, bi)"
        using less.prems(1) True unfolding e ref0_def by (simp add: Let_def)
      then show ?thesis using False cd by (intro skip) simp_all
    next
      case h: True
      from less.prems(1) True h obtain a b where
        ra: "rd buf (ref + bestLen) = Some a" and rb: "rd buf (pos + bestLen) = Some b"
        unfolding e ref0_def[symmetric] Let_def ref_def[symmetric]
        by (auto split: option.splits)
      show ?thesis
      proof (cases "a = b")
        case False
        then have rec: "findMatch_loop c st buf pos maxMatch key hash32 counter (i - 1)
                          bestLen bestIdx = Some (bl, bi)"
          using less.prems(1) True h ra rb
          unfolding e ref0_def[symmetric] Let_def ref_def[symmetric] by simp
        have "\<not> bytes_equal buf ref pos bestLen" using ra rb False by (simp add: bytes_equal_def)
        then have "?len ?d \<le> bestLen" unfolding ln using b0 by (rule match_length_reject)
        then show ?thesis using rec by (intro skip) simp_all
      next
        case ab: True
        from less.prems(1) True h ra rb ab obtain n4 n where
          x4: "extend4 buf ref pos maxMatch 0 = Some n4"
          and x1: "extend1 buf ref pos maxMatch n4 = Some n"
          unfolding e ref0_def[symmetric] Let_def ref_def[symmetric]
          by (auto split: option.splits)
        have nl: "n = ?len ?d" unfolding ln using x4 x1 by (rule match_length_computed)
        have nb: "n \<le> max 0 maxMatch" unfolding nl ln using match_length_bounds by blast
        note run = less.prems(1)[unfolded e ref0_def[symmetric] Let_def ref_def[symmetric]]
        show ?thesis
        proof (cases "n > bestLen")
          case False
          then have rec: "findMatch_loop c st buf pos maxMatch key hash32 counter (i - 1)
                            bestLen bestIdx = Some (bl, bi)"
            using run True h ra rb ab x4 x1 by simp
          show ?thesis using rec False nl by (intro skip) simp_all
        next
          case gt: True
          have new: "best_of ?cand ?len (?d + 1) n ?d"
            using best_of_new[OF bo] cd h gt nl by simp
          show ?thesis
          proof (cases "n = maxMatch")
            case True
            then have "bl = n" "bi = ?d"
              using run \<open>i > counter - posChecks c\<close> h ra rb ab x4 x1 gt by simp_all
            moreover have "\<forall>d. ?cand d \<longrightarrow> ?len d \<le> n"
            proof (intro allI impI)
              fix d
              have "?len d \<le> max 0 maxMatch"
                unfolding candidate_length_def using match_length_bounds by blast
              then show "?len d \<le> n" using True gt b0 by simp
            qed
            moreover have "?d + 1 \<le> posChecks c" using dr by simp
            ultimately show ?thesis using best_of_all[OF new] by simp
          next
            case False
            then have rec: "findMatch_loop c st buf pos maxMatch key hash32 counter (i - 1)
                              n ?d = Some (bl, bi)"
              using run \<open>i > counter - posChecks c\<close> h ra rb ab x4 x1 gt by simp
            have "n < maxMatch \<or> n = 0" using nb False gt b0 by auto
            from less.hyps[OF m rec i1 new[folded d1] this] show ?thesis .
          qed
        qed
      qed
    qed
  qed
qed

text \<open>
  Claim C6.  Whenever \<open>findMatch\<close> returns (with \<open>MIN_MATCH > 0\<close>), \<open>(bestLen, bestIdx)\<close> being
  the best match among the \<open>posChecks\<close> entries of the ring of the key (the greatest
  number of bytes equal at the reference and at \<open>pos\<close>, at most \<open>maxMatch\<close>, and the
  nearest entry that reaches it): the value is \<open>-1\<close> when \<open>bestLen\<close> is below \<open>MIN_MATCH\<close>,
  and otherwise \<open>(bestIdx << 16) | (bestLen - MIN_MATCH)\<close> with the ring distance
  \<open>bestIdx\<close> in \<open>[0, posChecks)\<close>; afterwards the cursor of the key is
  \<open>(counters[key] + 1) & maskChecks\<close>, it lies in \<open>[0, posChecks)\<close>, the slot it indexes in
  the ring of the key holds \<open>hash32 | pos\<close>, and no other cursor and no other slot has
  changed.
\<close>

theorem findMatch_result:
  assumes r: "findMatch c st buf pos endPos = Some (res, st')" and mm: "0 < MIN_MATCH c"
  shows "let key = getKey c buf (pos - 2);
             hash32 = hash c buf pos;
             counter = rolz_counters st key;
             maxMatch = min (MAX_MATCH c) (endPos - pos)
         in
     (\<exists>bestLen bestIdx.
        best_of (candidate c st key counter hash32)
          (candidate_length c st buf pos maxMatch key counter) (posChecks c) bestLen bestIdx \<and>
        (if bestLen < MIN_MATCH c then res = - 1
         else res = push_bit 16 bestIdx OR (bestLen - MIN_MATCH c) \<and>
              0 \<le> bestIdx \<and> bestIdx < posChecks c)) \<and>
     rolz_counters st' key = (counter + 1) AND maskChecks c \<and>
     0 \<le> rolz_counters st' key \<and> rolz_counters st' key < posChecks c \<and>
     rolz_matches st' (slot c key (rolz_counters st' key)) = hash32 OR word_of_int pos \<and>
     (\<forall>k. k \<noteq> key \<longrightarrow> rolz_counters st' k = rolz_counters st k) \<and>
     (\<forall>j. j \<noteq> slot c key (rolz_counters st' key) \<longrightarrow> rolz_matches st' j = rolz_matches st j)"
proof -
  define key where "key = getKey c buf (pos - 2)"
  define hash32 where "hash32 = hash c buf pos"
  define counter where "counter = rolz_counters st key"
  define maxMatch where "maxMatch = min (MAX_MATCH c) (endPos - pos)"
  let ?cand = "candidate c st key counter hash32"
  let ?len = "candidate_length c st buf pos maxMatch key counter"
  from r obtain bestLen bestIdx where
    lp: "findMatch_loop c st buf pos maxMatch key hash32 counter counter 0 (- 1)
           = Some (bestLen, bestIdx)"
    and res: "res = (if bestLen < MIN_MATCH c then - 1
                     else push_bit 16 bestIdx OR (bestLen - MIN_MATCH c))"
    and st': "st' = st\<lparr>rolz_counters := (rolz_counters st)(key := (counter + 1) AND maskChecks c),
                         rolz_matches := (rolz_matches st)
                           (slot c key ((counter + 1) AND maskChecks c)
                              := hash32 OR word_of_int pos)\<rparr>"
    unfolding findMatch_def key_def hash32_def counter_def maxMatch_def
    by (auto simp add: Let_def split: option.splits)
  have "best_of ?cand ?len (counter - counter) 0 (- 1)"
    unfolding best_of_def candidate_def by auto
  moreover have "counter - posChecks c \<le> counter" using posChecks_pos[of c] by simp
  ultimately have b: "best_of ?cand ?len (posChecks c) bestLen bestIdx"
    using findMatch_loop_spec[OF lp] by simp
  have d: "\<not> bestLen < MIN_MATCH c \<Longrightarrow> 0 \<le> bestIdx \<and> bestIdx < posChecks c"
    using b mm unfolding best_of_def candidate_def by auto
  have cr: "0 \<le> (counter + 1) AND maskChecks c \<and> (counter + 1) AND maskChecks c < posChecks c"
    by (rule maskChecks_range)
  show ?thesis
    unfolding Let_def key_def[symmetric] hash32_def[symmetric] counter_def[symmetric]
      maxMatch_def[symmetric]
    using b res d cr by (auto simp add: st')
qed

theorem findMatch_result_witness:
  "0 < MIN_MATCH rolz_sample_consts \<and>
   candidate_length rolz_sample_consts rolz_sample_state rolz_sample_buf 15 9 0x0909 2 0 = 3 \<and>
   candidate_length rolz_sample_consts rolz_sample_state rolz_sample_buf 15 9 0x0909 2 1 = 5 \<and>
   (\<exists>st'. findMatch rolz_sample_consts rolz_sample_state rolz_sample_buf 15 24
            = Some (65538, st') \<and>
          best_of (candidate rolz_sample_consts rolz_sample_state 0x0909 2 0x01000000)
            (candidate_length rolz_sample_consts rolz_sample_state rolz_sample_buf 15 9 0x0909 2)
            (posChecks rolz_sample_consts) 5 1 \<and>
          (65538 :: int) = push_bit 16 1 OR (5 - MIN_MATCH rolz_sample_consts) \<and>
          rolz_counters st' 0x0909 = 3 \<and>
          rolz_matches st' (slot rolz_sample_consts 0x0909 3) = 0x0100000F)"
proof -
  let ?cand = "candidate rolz_sample_consts rolz_sample_state 0x0909 2 0x01000000"
  let ?len = "candidate_length rolz_sample_consts rolz_sample_state rolz_sample_buf 15 9 0x0909 2"
  have mm: "0 < MIN_MATCH rolz_sample_consts" by (simp add: rolz_sample_consts_def)
  have k: "getKey rolz_sample_consts rolz_sample_buf (15 - 2) = 0x0909"
    by (simp add: rolz_sample_consts_def rolz_sample_buf_def)
  have h: "hash rolz_sample_consts rolz_sample_buf 15 = 0x01000000"
    by (simp add: rolz_sample_consts_def rolz_sample_buf_def)
  have x: "min (MAX_MATCH rolz_sample_consts) (24 - 15) = 9"
    by (simp add: rolz_sample_consts_def)
  have c: "rolz_counters rolz_sample_state 0x0909 = 2" by (simp add: rolz_sample_state_def)
  have l: "findMatch_loop rolz_sample_consts rolz_sample_state rolz_sample_buf 15 9 0x0909
             0x01000000 2 2 0 (- 1) = Some (5, 1)"
    by (simp add: findMatch_loop.simps extend4.simps extend1.simps rd_def rd_range_def
          rolz_sample_consts_def rolz_sample_buf_def rolz_sample_state_def
          posChecks_def maskChecks_def slot_def Let_def)
  have c0: "?len 0 = 3" by code_simp
  have c1: "?len 1 = 5" by code_simp
  obtain res st' where
    f: "findMatch rolz_sample_consts rolz_sample_state rolz_sample_buf 15 24 = Some (res, st')"
    unfolding findMatch_def using k h x c l by (simp add: Let_def)
  note t = findMatch_result[OF f mm, unfolded Let_def k h x c]
  from t obtain bl bi where
    bo: "best_of ?cand ?len (posChecks rolz_sample_consts) bl bi"
    and ir: "if bl < MIN_MATCH rolz_sample_consts then res = - 1
             else res = push_bit 16 bi OR (bl - MIN_MATCH rolz_sample_consts) \<and>
                  0 \<le> bi \<and> bi < posChecks rolz_sample_consts"
    and cn: "rolz_counters st' 0x0909 = (2 + 1) AND maskChecks rolz_sample_consts"
    and mt: "rolz_matches st' (slot rolz_sample_consts 0x0909 (rolz_counters st' 0x0909))
               = 0x01000000 OR word_of_int 15"
    by blast
  have i: "best_of ?cand ?len (2 - 2) 0 (- 1)" unfolding best_of_def candidate_def by auto
  have "best_of ?cand ?len (posChecks rolz_sample_consts) 5 1"
    using findMatch_loop_spec[OF l _ _ i] posChecks_pos[of rolz_sample_consts] by simp
  with bo have b: "bl = 5" "bi = 1" and bo': "best_of ?cand ?len (posChecks rolz_sample_consts) 5 1"
    using best_of_unique by blast+
  have r: "res = 65538" using ir b by (simp add: rolz_sample_consts_def)
  have e: "(65538 :: int) = push_bit 16 1 OR (5 - MIN_MATCH rolz_sample_consts)"
    by (simp add: rolz_sample_consts_def)
  have c3: "rolz_counters st' 0x0909 = 3"
    using cn by (simp add: maskChecks_def posChecks_def rolz_sample_consts_def)
  have m3: "rolz_matches st' (slot rolz_sample_consts 0x0909 3) = 0x0100000F"
    using mt unfolding c3 by simp
  from f r bo' e c3 m3 mm c0 c1 show ?thesis by blast
qed

section \<open>UTFCodec::forward: when it returns true\<close>

lemma encode_block_result:
  assumes "encode_block P src count start aliasMap symb = Some (b, dst)"
  shows "b = (int (length dst) < count - c_div count 10)"
  using assms unfolding encode_block_def Let_def
  by (auto split: option.splits prod.splits if_splits)

lemma count_symbols_unfold:
  "count_symbols P src count i aliasMap symb =
     (if i < count - 4 then
        (if fst (pack P src i) = 0 then Some (False, aliasMap, symb)
         else if \<not> unat (snd (pack P src i)) < 2 ^ 23 then None
         else if aliasMap (unat (snd (pack P src i))) = 0 \<and> length symb + 1 \<ge> 32768
         then Some (False, aliasMap, symb @ [snd (pack P src i)])
         else count_symbols P src count (i + int (fst (pack P src i)))
                (aliasMap(unat (snd (pack P src i)) := aliasMap (unat (snd (pack P src i))) + 1))
                (if aliasMap (unat (snd (pack P src i))) = 0 then symb @ [snd (pack P src i)] else symb))
      else Some (True, aliasMap, symb))"
  by (subst count_symbols.simps) (simp split: prod.splits)

lemma emit_aliases_unfold:
  "emit_aliases P src count aliasMap srcIdx dst =
     (if srcIdx < count - 4 then
        (if \<not> unat (snd (pack P src srcIdx)) < 2 ^ 23 then None
         else emit_aliases P src count aliasMap (srcIdx + int (fst (pack P src srcIdx)))
                  (dst @ (if aliasMap (unat (snd (pack P src srcIdx))) \<ge> 128
                          then [of_nat (aliasMap (unat (snd (pack P src srcIdx)))) OR 0x80,
                                of_nat (drop_bit 7 (aliasMap (unat (snd (pack P src srcIdx)))))]
                          else [of_nat (aliasMap (unat (snd (pack P src srcIdx))))])))
      else Some (srcIdx, dst))"
  by (subst emit_aliases.simps) (simp split: prod.splits add: Let_def)

lemma utf_sample_pack: "i \<in> {0,2,4,6,8,10,12,14,16,18} \<Longrightarrow> pack utf_sample_params utf_sample i = (2, 0x8C3A9)"
  by (auto simp: utf_sample_params_def utf_sample_def sample_pack_def rd_def)

lemma utf_sample_skip_start: "skip_start utf_sample 0 = Some 0"
  by (simp add: skip_start.simps utf_sample_def rd_def SIZES_def drop_bit_eq_div)

lemma utf_sample_validate: "validate utf_sample 0 20 = Some True"
  by (simp add: validate_def rd_range_def utf_sample_def freqs0_def freqs_def c_div_def)

lemma utf_sample_forward:
  "UTFCodec_forward utf_sample_params utf_sample_slice utf_sample_slice utf_sample 24 =
     Some (Inr (True, [0, 0, 0, 1, 8, 195, 169, 0, 0, 0, 0, 0, 0, 0, 0, 0, 0, 195, 169, 195, 169]))"
  apply (simp add: UTFCodec_forward_def utf_sample_skip_start utf_sample_validate
                   count_symbols_unfold utf_sample_pack)
  apply (simp add: utf_sample_params_def utf_sample_slice_def)
  apply (simp add: encode_block_def sample_sortRanks_def emit_aliases_unfold
                   utf_sample_pack[unfolded utf_sample_params_def, simplified]
                   rd_range_def c_div_def)
  apply (auto simp: utf_sample_def)
  done

text \<open>
  Claim C8, as the code has it.  A block of no byte returns \<open>true\<close> at once, with no
  output: there \<open>dstIdx < count - count / 10\<close> is \<open>0 < 0\<close>.
\<close>

theorem UTFCodec_forward_empty_block_counterexample:
  "UTFCodec_forward utf_sample_params utf_sample_slice utf_sample_slice [] 0
     = Some (Inr (True, [])) \<and>
   \<not> int (length ([] :: byte list)) < 0 - c_div 0 10"
  by (simp add: UTFCodec_forward_def c_div_def)

text \<open>
  Claim C8, amended: on a block of at least one byte, \<open>forward\<close> returns \<open>true\<close> only when
  the number of bytes it has written is less than \<open>count - count / 10\<close>; whenever it
  completes otherwise, it returns \<open>false\<close>.  When it has written anything, the value it
  returns is that comparison.
\<close>

theorem UTFCodec_forward_true_iff_smaller:
  assumes "UTFCodec_forward P input output src count = Some (Inr (b, dst))"
    and "count \<noteq> 0"
  shows "(b \<longrightarrow> int (length dst) < count - c_div count 10) \<and>
         (\<not> int (length dst) < count - c_div count 10 \<longrightarrow> \<not> b) \<and>
         (dst \<noteq> [] \<longrightarrow> b = (int (length dst) < count - c_div count 10))"
proof -
  have "b = (int (length dst) < count - c_div count 10) \<or> (\<not> b \<and> dst = [])"
    using assms unfolding UTFCodec_forward_def Let_def
    by (auto split: if_splits option.splits bool.splits prod.splits
             dest: encode_block_result)
  then show ?thesis by auto
qed

theorem UTFCodec_forward_true_iff_smaller_witness:
  "UTFCodec_forward utf_sample_params utf_sample_slice utf_sample_slice utf_sample 24 =
     Some (Inr (True, [0, 0, 0, 1, 8, 195, 169, 0, 0, 0, 0, 0, 0, 0, 0, 0, 0, 195, 169, 195, 169])) \<and>
   (24 :: int) \<noteq> 0 \<and>
   int (length [0, 0, 0, 1, 8, 195, 169, 0, 0, 0, 0, 0, 0, 0, 0, 0, 0, 195, 169, 195, 169 :: byte])
     < 24 - c_div 24 10"
  using UTFCodec_forward_true_iff_smaller [OF utf_sample_forward] utf_sample_forward
  by simp

section \<open>BWT::inverse and the primary indexes\<close>

subsection \<open>The run on the sample\<close>

lemma fill_buffer_zeros:
  "buckets 0 + m \<le> length buf \<Longrightarrow>
   fill_buffer pIdx i (replicate m 0) buckets buf =
     Some (take (buckets 0) buf @
           map (\<lambda>j. push_bit 8 (word_of_int (if i + int j < pIdx then i + int j - 1 else i + int j)))
             [0 ..< m] @
           drop (buckets 0 + m) buf)"
proof (induction m arbitrary: i buckets buf)
  case 0
  then show ?case by simp
next
  case (Suc m)
  let ?b = "buckets 0"
  let ?e = "push_bit 8 (word_of_int (if i < pIdx then i - 1 else i)) :: 32 word"
  have b: "?b < length buf" using Suc.prems by simp
  have w: "wr buf (int ?b) ?e = Some (buf[?b := ?e])" using b by (simp add: wr_def)
  have ih: "fill_buffer pIdx (i + 1) (replicate m 0) (buckets(0 := ?b + 1)) (buf[?b := ?e]) =
     Some (take (?b + 1) (buf[?b := ?e]) @
           map (\<lambda>j. push_bit 8 (word_of_int (if i + 1 + int j < pIdx then i + 1 + int j - 1 else i + 1 + int j)))
             [0 ..< m] @
           drop (?b + 1 + m) (buf[?b := ?e]))"
  proof -
    have pre: "(buckets(0 := ?b + 1)) 0 + m \<le> length (buf[?b := ?e])"
      using Suc.prems by simp
    show ?thesis
      using Suc.IH[of "buckets(0 := ?b + 1)" "buf[?b := ?e]" "i + 1", OF pre]
      by (simp only: fun_upd_same)
  qed
  have t: "take (?b + 1) (buf[?b := ?e]) = take ?b buf @ [?e]"
    using b by (simp add: take_Suc_conv_app_nth)
  have d: "drop (?b + 1 + m) (buf[?b := ?e]) = drop (?b + Suc m) buf" by simp
  have m: "map (\<lambda>j. push_bit 8 (word_of_int (if i + int j < pIdx then i + int j - 1 else i + int j)) :: 32 word)
             [0 ..< Suc m] =
           ?e # map (\<lambda>j. push_bit 8 (word_of_int (if i + 1 + int j < pIdx then i + 1 + int j - 1 else i + 1 + int j)))
             [0 ..< m]"
    by (simp add: map_upt_Suc del: upt_Suc) (simp add: algebra_simps)
  have f: "fill_buffer pIdx i (replicate (Suc m) 0) buckets buf =
           fill_buffer pIdx (i + 1) (replicate m 0) (buckets(0 := ?b + 1)) (buf[?b := ?e])"
    using w by (simp split: if_splits)
  show ?case unfolding f ih t d m by simp
qed

lemma bwt_sample_fill:
  "fill_buffer 100 0 bwt_sample_src (bucket_starts bwt_sample_src) (replicate 512 0)
     = Some bwt_sample_buffer"
proof -
  let ?bs = "bucket_starts bwt_sample_src"
  have b0: "?bs 0 = 0"
    by (simp add: bucket_starts_def)
  have b1: "?bs (unat (1 :: byte)) = 255"
    by (simp add: bucket_starts_def computeHistogram_def bwt_sample_src_def)
  let ?buf = "(replicate 512 (0 :: 32 word))[255 := 0xFFFFFF01]"
  let ?bk = "?bs(unat (1 :: byte) := 255 + 1)"
  have e: "(if (0 :: int) < 100 then push_bit 8 (word_of_int (0 - 1)) else push_bit 8 (word_of_int 0))
             OR ucast (1 :: byte) = (0xFFFFFF01 :: 32 word)"
    by (simp add: push_bit_eq_mult)
  have w: "wr (replicate 512 (0 :: 32 word)) (int 255) 0xFFFFFF01 = Some ?buf"
    by (simp add: wr_def)
  have s1: "fill_buffer 100 0 (1 # replicate 255 0) ?bs (replicate 512 0)
            = fill_buffer 100 (0 + 1) (replicate 255 0) ?bk ?buf"
    unfolding fill_buffer.simps(2) b1 e w by simp
  have pre: "?bk 0 + 255 \<le> length ?buf" by (simp add: b0)
  have d: "drop 255 ?buf = 0xFFFFFF01 # replicate 256 0"
  proof -
    have "drop 255 ?buf = (drop 255 (replicate 512 (0 :: 32 word)))[0 := 0xFFFFFF01]"
      by (simp add: drop_update_swap)
    also have "drop 255 (replicate 512 (0 :: 32 word)) = 0 # replicate 256 0"
      by (simp flip: replicate_Suc)
    finally show ?thesis by simp
  qed
  have k0: "?bk 0 = 0" by (simp add: b0)
  note z = fill_buffer_zeros[where buckets = ?bk and m = 255 and buf = ?buf and pIdx = 100
             and i = "0 + 1", OF pre]
  have "fill_buffer 100 0 (1 # replicate 255 0) ?bs (replicate 512 0) = Some bwt_sample_buffer"
    unfolding s1 z k0 by (simp add: bwt_sample_buffer_def d)
  then show ?thesis by (simp add: bwt_sample_src_def)
qed

lemma bwt_sample_buffer_length: "length bwt_sample_buffer = 512"
  by (simp add: bwt_sample_buffer_def)

lemma bwt_sample_buffer_chain:
  assumes "99 \<le> t" "t < 255"
  shows "rd bwt_sample_buffer t = Some (push_bit 8 (word_of_int (t + 1)))"
proof -
  have n: "nat t < 255" "\<not> nat t < 99" "int (nat t) = t" using assms by auto
  have "bwt_sample_buffer ! nat t = push_bit 8 (word_of_int (1 + t))"
    unfolding bwt_sample_buffer_def using n by (simp add: nth_append)
  then show ?thesis using assms by (simp add: rd_def bwt_sample_buffer_length add.commute)
qed

lemma bwt_sample_buffer_0: "rd bwt_sample_buffer 0 = Some 0"
  by (simp add: rd_def bwt_sample_buffer_def nth_append)

lemma bwt_sample_buffer_255: "rd bwt_sample_buffer 255 = Some 0xFFFFFF01"
  by (simp add: rd_def bwt_sample_buffer_def nth_append)

lemma bwt_sample_buffer_299: "rd bwt_sample_buffer 299 = Some 0"
  by (simp add: rd_def bwt_sample_buffer_def nth_append)

lemma next_t_chain:
  assumes "0 \<le> x" "x < 2 ^ 23"
  shows "next_t (push_bit 8 (word_of_int x)) = x"
proof -
  have r: "- (2 ^ 31) \<le> x * 256" "x * 256 < 2 ^ 31" using assms by auto
  have "sint (word_of_int (x * 256) :: 32 word) = x * 256"
    unfolding sint_sbintrunc' using r by (simp add: signed_take_bit_int_eq_self)
  moreover have "push_bit 8 (word_of_int x :: 32 word) = word_of_int (x * 256)"
    by (simp add: push_bit_eq_mult)
  ultimately show ?thesis
    by (simp only: next_t_def sint_signed_drop_bit_eq) (simp add: drop_bit_eq_div)
qed

lemma wr_same: "0 \<le> i \<Longrightarrow> i < int (length xs) \<Longrightarrow> xs ! nat i = v \<Longrightarrow> wr xs i v = Some xs"
  by (auto simp: wr_def)

lemma bwt_sample_out_zero:
  "0 \<le> i \<Longrightarrow> i < 224 \<Longrightarrow> wr bwt_sample_out i 0 = Some bwt_sample_out"
  by (rule wr_same) (auto simp: bwt_sample_out_def nth_list_update)

lemma ucast_push_bit_8: "(ucast (push_bit 8 w :: 32 word) :: byte) = 0"
  by (rule bit_eqI) (auto simp: bit_simps)

lemma chase_units_keep:
  assumes "\<forall>t \<in> set ts. \<exists>ptr. rd buf t = Some ptr \<and> ucast ptr = (0 :: byte)"
    and "\<forall>j < length ts. wr dst (n + ckSize * (k + int j)) 0 = Some dst"
  shows "chase_units buf ckSize n k ts dst = Some (map (\<lambda>t. the (rd buf t)) ts, dst)"
  using assms
proof (induction ts arbitrary: k)
  case Nil
  then show ?case by simp
next
  case (Cons t ts)
  from Cons.prems(1) obtain ptr where p: "rd buf t = Some ptr" "ucast ptr = (0 :: byte)"
    by auto
  from Cons.prems(2)[rule_format, of 0] have w: "wr dst (n + ckSize * k) 0 = Some dst"
    by simp
  have "\<forall>j < length ts. wr dst (n + ckSize * (k + 1 + int j)) 0 = Some dst"
  proof (intro allI impI)
    fix j assume "j < length ts"
    then have "Suc j < length (t # ts)" by simp
    from Cons.prems(2)[rule_format, OF this] show "wr dst (n + ckSize * (k + 1 + int j)) 0 = Some dst"
      by (simp add: algebra_simps)
  qed
  with Cons.IH[of "k + 1"] Cons.prems(1)
  have "chase_units buf ckSize n (k + 1) ts dst = Some (map (\<lambda>t. the (rd buf t)) ts, dst)"
    by simp
  then show ?case by (simp add: p w)
qed

lemma bwt_sample_chain_low: "99 \<le> t \<Longrightarrow> t < 255 \<Longrightarrow>
    \<exists>ptr. rd bwt_sample_buffer t = Some ptr \<and> ucast ptr = (0 :: byte)"
  by (intro exI conjI, erule (1) bwt_sample_buffer_chain, rule ucast_push_bit_8)

lemma bwt_sample_chain_next: "99 \<le> t \<Longrightarrow> t < 255 \<Longrightarrow>
    next_t (the (rd bwt_sample_buffer t)) = t + 1"
  by (simp only: bwt_sample_buffer_chain option.sel) (rule next_t_chain, auto)

lemma next_t_0: "next_t 0 = 0"
  by (simp add: next_t_def)

lemma bwt_sample_dst_zero:
  "0 \<le> i \<Longrightarrow> i < 256 \<Longrightarrow> wr bwt_sample_dst i 0 = Some bwt_sample_dst"
  by (rule wr_same) (auto simp: bwt_sample_dst_def)

lemma bwt_sample_first:
  "chase_eight bwt_sample_buffer 32 0 [99, 299, 0, 0, 0, 0, 0] 255 bwt_sample_dst
     = Some (1, [100, 0, 0, 0, 0, 0, 0], bwt_sample_out)"
proof -
  have c: "\<exists>ptr. rd bwt_sample_buffer 99 = Some ptr \<and> ucast ptr = (0 :: byte)"
    by (rule bwt_sample_chain_low) auto
  have 1: "\<forall>t \<in> set [99, 299, 0, 0, 0, 0, 0].
             \<exists>ptr. rd bwt_sample_buffer t = Some ptr \<and> ucast ptr = (0 :: byte)"
    using c by (simp add: bwt_sample_buffer_299 bwt_sample_buffer_0)
  have 2: "\<forall>j < length [99, 299, 0, 0, 0, 0, 0 :: int].
             wr bwt_sample_dst (0 + 32 * (0 + int j)) 0 = Some bwt_sample_dst"
    by (auto intro!: bwt_sample_dst_zero)
  note u = chase_units_keep[OF 1 2]
  have l: "(4294967041 :: byte) = 1"
    by code_simp
  have w: "wr bwt_sample_dst 224 (4294967041 :: byte) = Some bwt_sample_out"
    unfolding l by (simp add: wr_def bwt_sample_dst_def bwt_sample_out_def)
  have n: "sint (0xFFFFFF01 :: 32 word) < 0"
    by code_simp
  have t: "next_t (the (rd bwt_sample_buffer 99)) = 100"
    using bwt_sample_chain_next[of 99] by simp
  show ?thesis
    by (subst chase_eight.simps)
       (simp add: u bwt_sample_buffer_255 w n t bwt_sample_buffer_299 bwt_sample_buffer_0 next_t_0
             del: chase_units.simps)
qed

lemma bwt_sample_rest:
  "1 \<le> n \<Longrightarrow> n \<le> 32 \<Longrightarrow> 99 \<le> t \<Longrightarrow> t + (32 - n) \<le> 255 \<Longrightarrow>
   chase_seven bwt_sample_buffer 32 n [t, 0, 0, 0, 0, 0, 0] bwt_sample_out = Some bwt_sample_out"
proof (induction "nat (32 - n)" arbitrary: n t)
  case 0
  then have "n = 32" by simp
  then show ?case by (subst chase_seven.simps) simp
next
  case (Suc k)
  then have n: "n < 32" and t: "t < 255" by auto
  have c: "\<exists>ptr. rd bwt_sample_buffer t = Some ptr \<and> ucast ptr = (0 :: byte)"
    using Suc.prems t by (intro bwt_sample_chain_low) auto
  have 1: "\<forall>t \<in> set [t, 0, 0, 0, 0, 0, 0].
             \<exists>ptr. rd bwt_sample_buffer t = Some ptr \<and> ucast ptr = (0 :: byte)"
    using c by (simp add: bwt_sample_buffer_0)
  have 2: "\<forall>j < length [t, 0, 0, 0, 0, 0, 0 :: int].
             wr bwt_sample_out (n + 32 * (0 + int j)) 0 = Some bwt_sample_out"
    using Suc.prems n by (auto intro!: bwt_sample_out_zero)
  note u = chase_units_keep[OF 1 2]
  have nt: "next_t (the (rd bwt_sample_buffer t)) = t + 1"
    using Suc.prems t by (intro bwt_sample_chain_next) auto
  have ih: "chase_seven bwt_sample_buffer 32 (n + 1) [t + 1, 0, 0, 0, 0, 0, 0] bwt_sample_out
              = Some bwt_sample_out"
    using Suc.hyps(2) Suc.prems n by (intro Suc.hyps(1)) auto
  show ?case
    by (subst chase_seven.simps)
       (simp add: n u nt ih bwt_sample_buffer_0 next_t_0 del: chase_units.simps)
qed

lemma bwt_sample_inverseMergeTPSI:
  "inverseMergeTPSI bwt_sample_consts bwt_sample bwt_sample_src bwt_sample_dst 256
     = Some (True, bwt_sample, bwt_sample_out)"
proof -
  have r: "rd_range bwt_sample_src 0 256 = Some bwt_sample_src"
    by (simp add: rd_range_def bwt_sample_src_def)
  have p: "getPrimaryIndex bwt_sample 0 = 100" "getPrimaryIndex bwt_sample (Suc 0) = 300"
    "getPrimaryIndex bwt_sample 2 = 1" "getPrimaryIndex bwt_sample 3 = 1"
    "getPrimaryIndex bwt_sample 4 = 1" "getPrimaryIndex bwt_sample 5 = 1"
    "getPrimaryIndex bwt_sample 6 = 1" "getPrimaryIndex bwt_sample 7 = 256"
    by (simp_all add: getPrimaryIndex_def bwt_sample_def)
  have b: "bwt_buffer bwt_sample = Some 512" "bwt_bufferSize bwt_sample = 512"
    by (simp_all add: bwt_sample_def)
  have k: "BLOCK_SIZE_THRESHOLD1 bwt_sample_consts = 256"
    by (simp add: bwt_sample_consts_def)
  show ?thesis
    unfolding inverseMergeTPSI_def Let_def
    by (simp add: b p r k bwt_sample_fill bwt_sample_first
                  bwt_sample_rest[of 1 100, simplified])
qed

lemma bwt_sample_inverse:
  "BWT_inverse bwt_sample_consts bwt_sample bwt_sample_slice bwt_sample_slice
     bwt_sample_src bwt_sample_dst 256 = Some (Inr (True, bwt_sample, bwt_sample_out))"
  by (simp add: BWT_inverse_def bwt_sample_inverseMergeTPSI)
     (simp add: bwt_sample_consts_def bwt_sample_slice_def)

text \<open>
  The state of the sample is reached from a new \<^verbatim>\<open>BWT\<close>: a call of \<open>inverse\<close> on 512
  bytes allocates the buffer (it does so before it tests the primary index), and
  \<open>setPrimaryIndex\<close> accepts every index that is not negative.
\<close>

lemma bwt_sample_reachable:
  "\<exists>b1. BWT_inverse bwt_sample_consts (snd (setPrimaryIndex BWT_new 0 600))
           bwt_sample_slice bwt_sample_slice (replicate 512 0) (replicate 512 0) 512
         = Some (Inr (False, b1, replicate 512 0)) \<and>
        fold (\<lambda>(n, p) b. snd (setPrimaryIndex b n p))
          [(0, 100), (1, 300), (2, 1), (3, 1), (4, 1), (5, 1), (6, 1), (7, 256)] b1
         = bwt_sample"
proof -
  let ?b1 = "\<lparr> bwt_buffer = Some 512, bwt_bufferSize = 512,
               primaryIndexes = (\<lambda>n. 0)(0 := 600) \<rparr>"
  have "inverseMergeTPSI bwt_sample_consts (snd (setPrimaryIndex BWT_new 0 600))
          (replicate 512 0) (replicate 512 0) 512 = Some (False, ?b1, replicate 512 0)"
    by (simp add: inverseMergeTPSI_def setPrimaryIndex_def BWT_new_def getPrimaryIndex_def)
  then have "BWT_inverse bwt_sample_consts (snd (setPrimaryIndex BWT_new 0 600))
           bwt_sample_slice bwt_sample_slice (replicate 512 0) (replicate 512 0) 512
         = Some (Inr (False, ?b1, replicate 512 0))"
    by (simp add: BWT_inverse_def bwt_sample_consts_def bwt_sample_slice_def)
  moreover have "fold (\<lambda>(n, p) b. snd (setPrimaryIndex b n p))
          [(0, 100), (1, 300), (2, 1), (3, 1), (4, 1), (5, 1), (6, 1), (7, 256)] ?b1
         = bwt_sample"
    by (simp add: setPrimaryIndex_def bwt_sample_def fun_eq_iff)
  ultimately show ?thesis by blast
qed

subsection \<open>The test of the primary index\<close>

lemma inverseMergeTPSI_bad_index:
  assumes "getPrimaryIndex b 0 < 0 \<or> count < getPrimaryIndex b 0"
  shows "\<exists>b'. inverseMergeTPSI K b src dst count = Some (False, b', dst) \<and>
              primaryIndexes b' = primaryIndexes b"
proof -
  let ?b1 = "if bwt_buffer b = None \<or> bwt_bufferSize b < count
             then b\<lparr>bwt_bufferSize := max count 64, bwt_buffer := Some (nat (max count 64))\<rparr>
             else b"
  have p: "primaryIndexes ?b1 = primaryIndexes b" by simp
  then have "getPrimaryIndex ?b1 0 = getPrimaryIndex b 0" by (simp add: getPrimaryIndex_def)
  then have "inverseMergeTPSI K b src dst count = Some (False, ?b1, dst)"
    using assms unfolding inverseMergeTPSI_def Let_def by (simp only: if_True)
  with p show ?thesis by blast
qed

lemma inverseBiPSIv2_bad_index:
  assumes "getPrimaryIndex b 0 < 0 \<or> count < getPrimaryIndex b 0"
  shows "\<exists>b'. inverseBiPSIv2 K b src dst count = Some (False, b', dst) \<and>
              primaryIndexes b' = primaryIndexes b"
proof -
  let ?b1 = "if bwt_buffer b = None \<or> bwt_bufferSize b < count + 1
             then b\<lparr>bwt_bufferSize := max (count + 1) 64,
                    bwt_buffer := Some (nat (max (count + 1) 64))\<rparr>
             else b"
  have p: "primaryIndexes ?b1 = primaryIndexes b" by simp
  then have "getPrimaryIndex ?b1 0 = getPrimaryIndex b 0" by (simp add: getPrimaryIndex_def)
  then have "inverseBiPSIv2 K b src dst count = Some (False, ?b1, dst)"
    using assms unfolding inverseBiPSIv2_def Let_def by (simp only: if_True)
  with p show ?thesis by blast
qed


text \<open>
  Claim C4, as the code has it.  Only the primary index of chunk 0 is tested.  On the
  sample, the block has 256 bytes, so the eight chunks are decoded side by side with
  the primary indexes 0 to 7, and the primary index of chunk 1 is 300; \<open>inverse\<close>
  returns \<open>true\<close>.
\<close>

theorem BWT_inverse_chunk_index_counterexample:
  "BLOCK_SIZE_THRESHOLD1 bwt_sample_consts \<le> 256 \<and>
   256 \<le> BLOCK_SIZE_THRESHOLD2 bwt_sample_consts \<and>
   256 < getPrimaryIndex bwt_sample 1 \<and>
   BWT_inverse bwt_sample_consts bwt_sample bwt_sample_slice bwt_sample_slice
     bwt_sample_src bwt_sample_dst 256 = Some (Inr (True, bwt_sample, bwt_sample_out))"
  by (simp add: bwt_sample_inverse)
     (simp add: bwt_sample_consts_def bwt_sample_def getPrimaryIndex_def)

text \<open>
  Claim C4, amended.  For a block of at least two bytes that passes the tests of
  \<open>inverse\<close> on the slices and on \<^verbatim>\<open>MAX_BLOCK_SIZE\<close>, \<open>inverse\<close> returns \<open>false\<close>, with
  nothing written, whenever the primary index of chunk 0 is negative or greater than
  the number of bytes, under either strategy.
\<close>

theorem BWT_inverse_rejects_primary_index:
  assumes "2 \<le> count" and "count \<le> BWT_MAX_BLOCK_SIZE K"
    and "BWT_isValid K input" and "BWT_isValid K output"
    and "getPrimaryIndex b 0 < 0 \<or> count < getPrimaryIndex b 0"
  shows "\<exists>b'. BWT_inverse K b input output src dst count = Some (Inr (False, b', dst)) \<and>
              primaryIndexes b' = primaryIndexes b"
proof -
  from inverseMergeTPSI_bad_index[OF assms(5), of K src dst]
  obtain b1 where 1: "inverseMergeTPSI K b src dst count = Some (False, b1, dst)"
    "primaryIndexes b1 = primaryIndexes b" by blast
  from inverseBiPSIv2_bad_index[OF assms(5), of K src dst]
  obtain b2 where 2: "inverseBiPSIv2 K b src dst count = Some (False, b2, dst)"
    "primaryIndexes b2 = primaryIndexes b" by blast
  show ?thesis using assms(1-4) 1 2 by (simp add: BWT_inverse_def)
qed

theorem BWT_inverse_rejects_primary_index_witness:
  "(2 :: int) \<le> 256 \<and> 256 \<le> BWT_MAX_BLOCK_SIZE bwt_sample_consts \<and>
   BWT_isValid bwt_sample_consts bwt_sample_slice \<and>
   256 < getPrimaryIndex (BWT_new\<lparr>primaryIndexes := (\<lambda>n. 300)\<rparr>) 0 \<and>
   (\<exists>b'. BWT_inverse bwt_sample_consts (BWT_new\<lparr>primaryIndexes := (\<lambda>n. 300)\<rparr>)
           bwt_sample_slice bwt_sample_slice bwt_sample_src bwt_sample_dst 256
         = Some (Inr (False, b', bwt_sample_dst)) \<and>
         primaryIndexes b' = (\<lambda>n. 300))"
  using BWT_inverse_rejects_primary_index [of 256 bwt_sample_consts bwt_sample_slice
          bwt_sample_slice "BWT_new\<lparr>primaryIndexes := (\<lambda>n. 300)\<rparr>" bwt_sample_src bwt_sample_dst]
  by (simp add: bwt_sample_consts_def bwt_sample_slice_def getPrimaryIndex_def)

section \<open>BWTBlockCodec.Inverse: the failures\<close>







end
